theory Spec2Isabelle
  imports Main "HOL-Library.Word" "HOL-Library.Sublist"
begin

section \<open>Strings\<close>

text \<open>
  A TypeScript string is a sequence of UTF-16 code units. \<open>js\<close> turns an ASCII literal
  into such a sequence; it is used to write the literals of the source.
\<close>

type_synonym jsstring = "16 word list"

definition js :: "string \<Rightarrow> jsstring" where
  "js s = map (\<lambda>c. of_nat (of_char c)) s"

text \<open>
  \<open>String.prototype.trim\<close> removes the code units that ECMAScript calls WhiteSpace or
  LineTerminator from both ends: TAB, LF, VT, FF, CR, SPACE, NBSP, U+1680,
  U+2000 to U+200A, U+2028, U+2029, U+202F, U+205F, U+3000 and U+FEFF.
\<close>

definition isWhiteSpace :: "16 word \<Rightarrow> bool" where
  "isWhiteSpace c \<longleftrightarrow>
     c = 0x09 \<or> c = 0x0A \<or> c = 0x0B \<or> c = 0x0C \<or> c = 0x0D \<or> c = 0x20 \<or> c = 0xA0 \<or>
     c = 0x1680 \<or> (0x2000 \<le> c \<and> c \<le> 0x200A) \<or> c = 0x2028 \<or> c = 0x2029 \<or>
     c = 0x202F \<or> c = 0x205F \<or> c = 0x3000 \<or> c = 0xFEFF"

definition trim :: "jsstring \<Rightarrow> jsstring" where
  "trim s = rev (dropWhile isWhiteSpace (rev (dropWhile isWhiteSpace s)))"

section \<open>The library calls of \<open>splitCommands\<close>\<close>

text \<open>
  \<open>commandLine.split('\n')\<close>: the pieces between the line feeds, in order; the empty
  string gives one empty piece. \<open>cur\<close> is the piece being read.
\<close>

fun split_newline_from :: "jsstring \<Rightarrow> jsstring \<Rightarrow> jsstring list" where
  "split_newline_from cur [] = [cur]"
| "split_newline_from cur (c # cs) =
     (if c = 0x0A then cur # split_newline_from [] cs
      else split_newline_from (cur @ [c]) cs)"

definition split_newline :: "jsstring \<Rightarrow> jsstring list" where
  "split_newline s = split_newline_from [] s"

text \<open>
  The regular expression \<open>/\|\||&&|;/\<close> matched at the start of a string: the
  alternatives are tried in the order written, and the result is the length of the match.
\<close>

definition match_separator :: "jsstring \<Rightarrow> nat option" where
  "match_separator s =
     (if take 2 s = [0x7C, 0x7C] then Some 2
      else if take 2 s = [0x26, 0x26] then Some 2
      else if take 1 s = [0x3B] then Some 1
      else None)"

text \<open>
  \<open>line.split(/\|\||&&|;/)\<close>, as ECMAScript defines the split of a string \<open>S\<close> by a
  regular expression: \<open>p\<close> is the start of the current piece and \<open>q\<close> the position where
  a match is tried. A failed match moves \<open>q\<close> by one; a match ending at \<open>e\<close> closes the
  piece \<open>S[p..q)\<close> and continues at \<open>e\<close>, unless \<open>e = p\<close> (an empty match at the start of
  the piece), which moves \<open>q\<close> by one. At the end of the string the piece \<open>S[p..)\<close> is
  closed. The empty string is answered before the loop: one empty piece, since the
  expression does not match the empty string.
\<close>

function split_loop :: "jsstring \<Rightarrow> nat \<Rightarrow> nat \<Rightarrow> jsstring list" where
  "split_loop S p q =
     (if q < length S then
        (case match_separator (drop q S) of
           None \<Rightarrow> split_loop S p (q + 1)
         | Some n \<Rightarrow>
             (let e = min (q + n) (length S) in
              if e = p then split_loop S p (q + 1)
              else take (q - p) (drop p S) # split_loop S e e))
      else [drop p S])"
  by pat_completeness auto
termination
  by (relation "measure (\<lambda>(S, p, q). length S - q)")
     (auto simp: match_separator_def split: if_splits)

declare split_loop.simps [simp del]

definition split_separators :: "jsstring \<Rightarrow> jsstring list" where
  "split_separators S = (if length S = 0 then [S] else split_loop S 0 0)"

section \<open>splitCommands\<close>

text \<open>
  The body of the inner \<open>forEach\<close>: the trimmed fragment is pushed onto \<open>commands\<close> when
  its length is positive.
\<close>

definition push_trimmed :: "jsstring list \<Rightarrow> jsstring \<Rightarrow> jsstring list" where
  "push_trimmed commands cmd =
     (let trimmed = trim cmd in
      if length trimmed > 0 then commands @ [trimmed] else commands)"

text \<open>The two nested \<open>forEach\<close> loops over the lines and over the parts of each line.\<close>

definition splitCommands :: "jsstring \<Rightarrow> jsstring list" where
  "splitCommands commandLine =
     foldl (\<lambda>commands line. foldl push_trimmed commands (split_separators line))
       [] (split_newline commandLine)"

section \<open>The splitter as the specification describes it\<close>

text \<open>
  The reference algorithm: lines, then the fragments of each line between the operators
  \<open>||\<close>, \<open>&&\<close> and \<open>;\<close> read from left to right, each fragment trimmed, the empty
  ones dropped, the rest concatenated in order. It is written without the functions above.

  The lines of a string: a string without a line feed is one line; otherwise the first
  line is what stands before the first line feed, and the other lines are the lines of
  what stands after it.
\<close>

function spec_lines :: "jsstring \<Rightarrow> jsstring list" where
  "spec_lines s =
     (if 0x0A \<in> set s
      then takeWhile (\<lambda>c. c \<noteq> 0x0A) s # spec_lines (tl (dropWhile (\<lambda>c. c \<noteq> 0x0A) s))
      else [s])"
  by pat_completeness auto
termination
proof (relation "measure length")
  fix s :: jsstring
  assume "0x0A \<in> set s"
  then have "dropWhile (\<lambda>c. c \<noteq> 0x0A) s \<noteq> []" by (simp add: dropWhile_eq_Nil_conv)
  then have "length (tl (dropWhile (\<lambda>c. c \<noteq> 0x0A) s)) < length (dropWhile (\<lambda>c. c \<noteq> 0x0A) s)"
    by simp
  also have "\<dots> \<le> length s" by (rule length_dropWhile_le)
  finally show "(tl (dropWhile (\<lambda>c. c \<noteq> 0x0A) s), s) \<in> measure length" by simp
qed simp

declare spec_lines.simps [simp del]

text \<open>
  White space, one code unit after the other: the control characters TAB, LF, VT, FF and
  CR, the space, the no-break space, the Ogham space mark, the eleven spaces from EN QUAD
  to HAIR SPACE, the line and the paragraph separator, the narrow no-break space, the
  medium mathematical space, the ideographic space and the byte order mark.
\<close>

definition white_space_units :: "16 word list" where
  "white_space_units =
     [0x0009, 0x000A, 0x000B, 0x000C, 0x000D, 0x0020, 0x00A0, 0x1680,
      0x2000, 0x2001, 0x2002, 0x2003, 0x2004, 0x2005, 0x2006, 0x2007, 0x2008, 0x2009, 0x200A,
      0x2028, 0x2029, 0x202F, 0x205F, 0x3000, 0xFEFF]"

definition spec_white_space :: "16 word \<Rightarrow> bool" where
  "spec_white_space c \<longleftrightarrow> c \<in> set white_space_units"

text \<open>
  Trimming: the white space at the start is dropped, and then the white space at the end,
  which is a rest of the string that is white space only.
\<close>

fun strip_leading :: "jsstring \<Rightarrow> jsstring" where
  "strip_leading [] = []"
| "strip_leading (c # cs) = (if spec_white_space c then strip_leading cs else c # cs)"

fun strip_trailing :: "jsstring \<Rightarrow> jsstring" where
  "strip_trailing [] = []"
| "strip_trailing (c # cs) =
     (if list_all spec_white_space (c # cs) then [] else c # strip_trailing cs)"

definition spec_trim :: "jsstring \<Rightarrow> jsstring" where
  "spec_trim s = strip_trailing (strip_leading s)"

text \<open>The fragments of a line; \<open>cur\<close> is the fragment being read.\<close>

fun fragments_from :: "jsstring \<Rightarrow> jsstring \<Rightarrow> jsstring list" where
  "fragments_from cur [] = [cur]"
| "fragments_from cur (c # cs) =
     (if c = 0x3B then cur # fragments_from [] cs
      else (case cs of
              [] \<Rightarrow> fragments_from (cur @ [c]) cs
            | d # ds \<Rightarrow>
                if (c = 0x7C \<and> d = 0x7C) \<or> (c = 0x26 \<and> d = 0x26)
                then cur # fragments_from [] ds
                else fragments_from (cur @ [c]) cs))"

definition spec_fragments :: "jsstring \<Rightarrow> jsstring list" where
  "spec_fragments line = fragments_from [] line"

definition spec_splitCommands :: "jsstring \<Rightarrow> jsstring list" where
  "spec_splitCommands s =
     concat (map (\<lambda>line. filter (\<lambda>f. f \<noteq> []) (map spec_trim (spec_fragments line)))
                 (spec_lines s))"

text \<open>
  A string that consists of separator operators and white space only, read from left to
  right.
\<close>

fun only_separators :: "jsstring \<Rightarrow> bool" where
  "only_separators [] = True"
| "only_separators (c # cs) =
     (if isWhiteSpace c \<or> c = 0x3B then only_separators cs
      else (case cs of
              [] \<Rightarrow> False
            | d # ds \<Rightarrow> ((c = 0x7C \<and> d = 0x7C) \<or> (c = 0x26 \<and> d = 0x26)) \<and> only_separators ds))"

section \<open>processTerminalExecution\<close>

text \<open>
  The object types of the source. \<open>context\<close> and \<open>options\<close> are reserved words of
  Isabelle, so the two fields carry a prime.
\<close>

record capture_options =
  context' :: "jsstring option"
  status :: jsstring

record capture_request =
  commands :: "jsstring list"
  options' :: capture_options

text \<open>
  \<open>exitCode\<close> is \<open>number | undefined\<close>; a process exit code is an integer, and
  \<open>undefined\<close> is \<open>None\<close>. The test \<open>!commandLine\<close> holds of the empty string only.
\<close>

definition processTerminalExecution ::
  "jsstring \<Rightarrow> int option \<Rightarrow> jsstring option \<Rightarrow> bool \<Rightarrow> capture_request option" where
  "processTerminalExecution commandLine exitCode workspaceContext captureSuccessOnly =
     (if commandLine = [] \<or> length (trim commandLine) = 0 then None
      else if captureSuccessOnly \<and> exitCode \<noteq> Some 0 then None
      else
        (let status' = (if exitCode = Some 0 then js ''success'' else js ''failed'');
             commands' = splitCommands commandLine
         in Some \<lparr>commands = commands',
                  options' = \<lparr>context' = workspaceContext, status = status'\<rparr>\<rparr>))"

section \<open>Promises and operations\<close>

text \<open>
  The queue chains promises with \<open>then\<close> and \<open>catch\<close>. A promise is pending until it
  settles, and it settles once, fulfilled or rejected.
\<close>

datatype settlement = Fulfilled | Rejected

text \<open>
  An operation is a function \<open>() => Promise<void>\<close>. What the queue can observe of it is
  what it does once called: a sequence of steps and then how its promise ends. A step is a
  side effect, a suspension that only takes time (\<open>await\<close> of a timer or of a request),
  or the handing of a side effect to a callback that the returned promise does not wait
  for (\<open>setTimeout\<close>, a promise that is not awaited); such a callback fires at any
  later time, before or after the promise of the operation settles. The promise resolves,
  it rejects, the call itself throws, or the promise stays pending for ever.
\<close>

datatype outcome = Resolves | Rejects | Throws | Hangs

datatype 'e action = Effect 'e | Await | Defer 'e

record 'e operation =
  body :: "'e action list"
  result :: outcome

fun effects :: "'e action list \<Rightarrow> 'e list" where
  "effects [] = []"
| "effects (Effect e # as) = e # effects as"
| "effects (Await # as) = effects as"
| "effects (Defer e # as) = effects as"

definition settles :: "outcome \<Rightarrow> settlement option" where
  "settles r = (case r of Resolves \<Rightarrow> Some Fulfilled | Rejects \<Rightarrow> Some Rejected
                | Throws \<Rightarrow> Some Rejected | Hangs \<Rightarrow> None)"

text \<open>
  What is observed of a run: operation number \<open>k\<close> (in the order of the calls of
  \<open>enqueue\<close>) is called, performs a side effect, hands a side effect to a callback, and
  its promise settles; and a callback of operation \<open>k\<close> fires and performs its side
  effect.
\<close>

datatype 'e event =
    Started nat
  | Did nat 'e
  | Deferred nat 'e
  | Fired nat 'e
  | Finished nat settlement

text \<open>The events of the steps of operation \<open>k\<close>.\<close>

fun acts :: "nat \<Rightarrow> 'e action list \<Rightarrow> 'e event list" where
  "acts k [] = []"
| "acts k (Effect e # as) = Did k e # acts k as"
| "acts k (Await # as) = acts k as"
| "acts k (Defer e # as) = Deferred k e # acts k as"

text \<open>
  The promises that \<open>enqueue\<close> builds. \<open>Settled\<close> is a settled promise, and
  \<open>Promise.resolve()\<close> is \<open>Settled Fulfilled\<close>. \<open>Then p k operation\<close> is
  \<open>p.then(operation)\<close> while the operation has not been called. \<open>Running\<close> is the same
  promise after the call, following the promise the operation returned: the steps left
  and the outcome. \<open>Catch p\<close> is \<open>p.catch(() => {})\<close>.
\<close>

datatype 'e promise =
    Settled settlement
  | Then "'e promise" nat "'e operation"
  | Running nat "'e action list" outcome
  | Catch "'e promise"

text \<open>
  The reaction of \<open>then\<close> calls the operation. A call that throws rejects the promise of
  \<open>then\<close> at once, after the side effects made before the throw.
\<close>

definition call :: "nat \<Rightarrow> 'e operation \<Rightarrow> 'e promise \<times> 'e event list" where
  "call k operation =
     (if result operation = Throws
      then (Settled Rejected,
            Started k # acts k (body operation) @ [Finished k Rejected])
      else (Running k (body operation) (result operation), [Started k]))"

text \<open>
  One step of the event loop on a chain. \<open>p.then(operation)\<close> calls the operation when
  \<open>p\<close> is fulfilled and passes a rejection of \<open>p\<close> on without calling it. A running
  operation performs its next step, or settles when no step is left; one that hangs
  never does. \<open>p.catch(() => {})\<close> is fulfilled when \<open>p\<close> has settled either way, the
  handler returning normally. Nothing happens on a settled promise.
\<close>

fun step :: "'e promise \<Rightarrow> ('e promise \<times> 'e event list) option" where
  "step (Settled s) = None"
| "step (Then p k operation) =
     (case p of
        Settled Fulfilled \<Rightarrow> Some (call k operation)
      | Settled Rejected \<Rightarrow> Some (Settled Rejected, [])
      | _ \<Rightarrow> map_option (\<lambda>(p', es). (Then p' k operation, es)) (step p))"
| "step (Running k as r) =
     (case as of
        Effect e # as' \<Rightarrow> Some (Running k as' r, [Did k e])
      | Await # as' \<Rightarrow> Some (Running k as' r, [])
      | Defer e # as' \<Rightarrow> Some (Running k as' r, [Deferred k e])
      | [] \<Rightarrow> (case settles r of
                 Some st \<Rightarrow> Some (Settled st, [Finished k st])
               | None \<Rightarrow> None))"
| "step (Catch p) =
     (case p of
        Settled s \<Rightarrow> Some (Settled Fulfilled, [])
      | _ \<Rightarrow> map_option (\<lambda>(p', es). (Catch p', es)) (step p))"

section \<open>OperationQueue\<close>

text \<open>
  The class has the one field \<open>queue\<close>. \<open>count\<close> numbers the operations in the order
  of the calls of \<open>enqueue\<close>, \<open>trace\<close> records the events so far, oldest first, and
  \<open>timers\<close> holds the callbacks handed over and not yet fired, each with the number of
  its operation; the three are there to state the properties and are read by no
  operation.
\<close>

record 'e OperationQueue =
  queue :: "'e promise"
  count :: nat
  trace :: "'e event list"
  timers :: "(nat \<times> 'e) list"

definition new_queue :: "'e OperationQueue" where
  "new_queue = \<lparr>queue = Settled Fulfilled, count = 0, trace = [], timers = []\<rparr>"

definition enqueue :: "'e operation \<Rightarrow> 'e OperationQueue \<Rightarrow> 'e OperationQueue" where
  "enqueue operation s =
     s\<lparr>queue := Catch (Then (queue s) (count s) operation), count := Suc (count s)\<rparr>"

text \<open>The callbacks that a list of events hands over.\<close>

fun deferred :: "'e event list \<Rightarrow> (nat \<times> 'e) list" where
  "deferred [] = []"
| "deferred (Deferred k e # es) = (k, e) # deferred es"
| "deferred (_ # es) = deferred es"

text \<open>
  The event loop makes one step on the chain, if there is one, or fires one of the
  callbacks that wait, whichever it is. The caller of the queue may call \<open>enqueue\<close>
  between any two steps; to let the durations of the operations, the delays of the
  callbacks and the times of the calls vary is to let the list of inputs vary.
\<close>

definition tick :: "'e OperationQueue \<Rightarrow> 'e OperationQueue" where
  "tick s = (case step (queue s) of
               None \<Rightarrow> s
             | Some (p, es) \<Rightarrow>
                 s\<lparr>queue := p, trace := trace s @ es, timers := timers s @ deferred es\<rparr>)"

definition fire :: "nat \<Rightarrow> 'e OperationQueue \<Rightarrow> 'e OperationQueue" where
  "fire i s =
     (if i < length (timers s)
      then s\<lparr>trace := trace s @ [Fired (fst (timers s ! i)) (snd (timers s ! i))],
             timers := take i (timers s) @ drop (Suc i) (timers s)\<rparr>
      else s)"

datatype 'e input = Enqueue "'e operation" | Tick | Fire nat

fun feed :: "'e OperationQueue \<Rightarrow> 'e input \<Rightarrow> 'e OperationQueue" where
  "feed s (Enqueue operation) = enqueue operation s"
| "feed s Tick = tick s"
| "feed s (Fire i) = fire i s"

definition run :: "'e input list \<Rightarrow> 'e OperationQueue \<Rightarrow> 'e OperationQueue" where
  "run ins s = foldl feed s ins"

fun operations :: "'e input list \<Rightarrow> 'e operation list" where
  "operations [] = []"
| "operations (Enqueue operation # ins) = operation # operations ins"
| "operations (Tick # ins) = operations ins"
| "operations (Fire i # ins) = operations ins"

section \<open>The queue as the specification describes it\<close>

text \<open>
  The operations one after the other, in the order given: each is called, makes its
  steps and settles before the next is called, and nothing follows an operation that
  never settles.
\<close>

definition block :: "nat \<Rightarrow> 'e operation \<Rightarrow> 'e event list" where
  "block k operation =
     Started k # acts k (body operation) @
     (case settles (result operation) of Some st \<Rightarrow> [Finished k st] | None \<Rightarrow> [])"

fun serial :: "nat \<Rightarrow> 'e operation list \<Rightarrow> 'e event list" where
  "serial k [] = []"
| "serial k (operation # ops) =
     block k operation @ (if result operation = Hangs then [] else serial (Suc k) ops)"

text \<open>
  The events of the operations themselves: the firings of callbacks are left out.
\<close>

fun own_events :: "'e event list \<Rightarrow> 'e event list" where
  "own_events [] = []"
| "own_events (Fired k e # es) = own_events es"
| "own_events (x # es) = x # own_events es"

text \<open>
  The side effects in a list of events, in the order they were made, those of callbacks
  included, and the numbers of the operations they belong to.
\<close>

fun side_effects :: "'e event list \<Rightarrow> 'e list" where
  "side_effects [] = []"
| "side_effects (Did k e # es) = e # side_effects es"
| "side_effects (Fired k e # es) = e # side_effects es"
| "side_effects (_ # es) = side_effects es"

fun side_effect_owners :: "'e event list \<Rightarrow> nat list" where
  "side_effect_owners [] = []"
| "side_effect_owners (Did k e # es) = k # side_effect_owners es"
| "side_effect_owners (Fired k e # es) = k # side_effect_owners es"
| "side_effect_owners (_ # es) = side_effect_owners es"

text \<open>
  The side effects made before the promise of their operation has settled, each with the
  number of its operation: \<open>fin\<close> lists the operations that have settled so far.
\<close>

fun before_settlement :: "nat list \<Rightarrow> 'e event list \<Rightarrow> (nat \<times> 'e) list" where
  "before_settlement fin [] = []"
| "before_settlement fin (Finished k st # es) = before_settlement (k # fin) es"
| "before_settlement fin (Did k e # es) =
     (if k \<in> set fin then before_settlement fin es else (k, e) # before_settlement fin es)"
| "before_settlement fin (Fired k e # es) =
     (if k \<in> set fin then before_settlement fin es else (k, e) # before_settlement fin es)"
| "before_settlement fin (_ # es) = before_settlement fin es"

section \<open>Quantities of a chain used in the proofs\<close>

text \<open>
  How a chain ends if it is run to its end, the events still to come, a bound on the
  number of steps left, and the reading of a list of events from left to right with the
  number of operations called so far and whether the last of them is still running.
\<close>

fun fate :: "'e promise \<Rightarrow> settlement option" where
  "fate (Settled s) = Some s"
| "fate (Then p k operation) =
     (case fate p of
        Some Fulfilled \<Rightarrow> settles (result operation)
      | Some Rejected \<Rightarrow> Some Rejected
      | None \<Rightarrow> None)"
| "fate (Running k as r) = settles r"
| "fate (Catch p) = (case fate p of Some s \<Rightarrow> Some Fulfilled | None \<Rightarrow> None)"

fun future :: "'e promise \<Rightarrow> 'e event list" where
  "future (Settled s) = []"
| "future (Then p k operation) =
     future p @ (if fate p = Some Fulfilled then block k operation else [])"
| "future (Running k as r) =
     acts k as @ (case settles r of Some st \<Rightarrow> [Finished k st] | None \<Rightarrow> [])"
| "future (Catch p) = future p"

fun fuel :: "'e promise \<Rightarrow> nat" where
  "fuel (Settled s) = 0"
| "fuel (Then p k operation) = fuel p + length (body operation) + 3"
| "fuel (Running k as r) = Suc (length as)"
| "fuel (Catch p) = Suc (fuel p)"

definition cost :: "'e operation list \<Rightarrow> nat" where
  "cost ops = sum_list (map (\<lambda>operation. length (body operation) + 4) ops)"

fun deferred_fired :: "'e event list \<Rightarrow> (nat \<times> 'e) list" where
  "deferred_fired [] = []"
| "deferred_fired (Fired k e # es) = (k, e) # deferred_fired es"
| "deferred_fired (_ # es) = deferred_fired es"

fun scan :: "nat \<times> bool \<Rightarrow> 'e event list \<Rightarrow> (nat \<times> bool) option" where
  "scan st [] = Some st"
| "scan (n, busy) (Started k # es) =
     (if \<not> busy \<and> k = n then scan (Suc n, True) es else None)"
| "scan (n, busy) (Did k e # es) =
     (if busy \<and> Suc k = n then scan (n, busy) es else None)"
| "scan (n, busy) (Deferred k e # es) =
     (if busy \<and> Suc k = n then scan (n, busy) es else None)"
| "scan (n, busy) (Fired k e # es) =
     (if k < n then scan (n, busy) es else None)"
| "scan (n, busy) (Finished k st # es) =
     (if busy \<and> Suc k = n then scan (n, False) es else None)"

definition invariant :: "'e OperationQueue \<Rightarrow> 'e operation list \<Rightarrow> bool" where
  "invariant s ops \<longleftrightarrow>
     count s = length ops \<and>
     own_events (trace s) @ future (queue s) = serial 0 ops \<and>
     fate (queue s) =
       (if list_all (\<lambda>operation. result operation \<noteq> Hangs) ops then Some Fulfilled else None) \<and>
     fuel (queue s) \<le> cost ops \<and>
     scan (0, False) (trace s) \<noteq> None \<and>
     list_all (\<lambda>x. Deferred (fst x) (snd x) \<in> set (trace s)) (timers s) \<and>
     list_all (\<lambda>x. Deferred (fst x) (snd x) \<in> set (trace s)) (deferred_fired (trace s))"

section \<open>captureCommands and queueCapture\<close>

text \<open>
  Modelled from the spec: the module \<open>./client\<close> with the class \<open>MemoryBoxClient\<close> is
  not among the sources. Its \<open>addCommand(command, description, options)\<close> returns a
  promise that fulfils with an identifier, fails, or stays pending. A client is the
  function that gives the end of that promise for each call; the call itself is the
  observed side effect.
\<close>

datatype 'a promised = Fulfils 'a | Fails | Pends

type_synonym MemoryBoxClient = "jsstring \<Rightarrow> jsstring \<Rightarrow> capture_options \<Rightarrow> jsstring promised"

datatype submission = AddCommand jsstring jsstring capture_options

definition addCommand ::
  "MemoryBoxClient \<Rightarrow> jsstring \<Rightarrow> jsstring \<Rightarrow> capture_options \<Rightarrow> submission \<times> jsstring promised" where
  "addCommand client cmd description opts = (AddCommand cmd description opts, client cmd description opts)"

text \<open>
  \<open>Promise.allSettled\<close> fulfils with one result for each promise once all of them have
  settled, whether they fulfilled or failed, and stays pending while one of them does.
\<close>

datatype 'a settled_result = FulfilledResult 'a | RejectedResult

definition allSettled :: "'a promised list \<Rightarrow> 'a settled_result list promised" where
  "allSettled ps =
     (if list_ex (\<lambda>p. p = Pends) ps then Pends
      else Fulfils (map (\<lambda>p. case p of Fulfils v \<Rightarrow> FulfilledResult v | _ \<Rightarrow> RejectedResult) ps))"

text \<open>An \<open>async\<close> function whose last step is \<open>await p\<close> ends as \<open>p\<close> ends.\<close>

definition await :: "'a promised \<Rightarrow> outcome" where
  "await p = (case p of Fulfils v \<Rightarrow> Resolves | Fails \<Rightarrow> Rejects | Pends \<Rightarrow> Hangs)"

text \<open>
  \<open>commands.map\<close> calls \<open>client.addCommand(cmd, '', options)\<close> for each command in
  order; the function then awaits \<open>Promise.allSettled\<close> of the promises returned.
\<close>

definition captureCommands ::
  "MemoryBoxClient \<Rightarrow> jsstring list \<Rightarrow> capture_options \<Rightarrow> submission operation" where
  "captureCommands client cmds opts =
     (let calls = map (\<lambda>cmd. addCommand client cmd (js '''') opts) cmds
      in \<lparr>body = map (\<lambda>c. Effect (fst c)) calls @ [Await],
          result = await (allSettled (map snd calls))\<rparr>)"

text \<open>
  The arrow function that \<open>queueCapture\<close> enqueues: it returns at once when there is no
  client, and otherwise awaits \<open>captureCommands\<close>.
\<close>

definition capture_operation ::
  "MemoryBoxClient option \<Rightarrow> capture_request \<Rightarrow> submission operation" where
  "capture_operation client result' =
     (case client of
        None \<Rightarrow> \<lparr>body = [], result = Resolves\<rparr>
      | Some c \<Rightarrow> captureCommands c (commands result') (options' result'))"

definition queueCapture ::
  "submission OperationQueue \<Rightarrow> MemoryBoxClient option \<Rightarrow> capture_request \<Rightarrow> submission OperationQueue" where
  "queueCapture q client result' = enqueue (capture_operation client result') q"

section \<open>Facts about trimming and splitting\<close>

lemma dropWhile_all_Nil: "\<forall>x\<in>set (dropWhile P xs). P x \<Longrightarrow> dropWhile P xs = []"
  by (metis hd_dropWhile hd_in_set)

lemma trim_empty_iff: "trim s = [] \<longleftrightarrow> list_all isWhiteSpace s"
proof
  assume "trim s = []"
  then have "\<forall>x\<in>set (dropWhile isWhiteSpace s). isWhiteSpace x"
    by (simp add: trim_def dropWhile_eq_Nil_conv)
  then have "dropWhile isWhiteSpace s = []" by (rule dropWhile_all_Nil)
  then show "list_all isWhiteSpace s"
    by (simp add: dropWhile_eq_Nil_conv list_all_iff)
next
  assume "list_all isWhiteSpace s"
  then have dw: "dropWhile isWhiteSpace s = []"
    by (simp add: dropWhile_eq_Nil_conv list_all_iff)
  show "trim s = []" by (simp only: trim_def dw rev.simps dropWhile.simps)
qed

lemma last_dropWhile: "dropWhile P xs \<noteq> [] \<Longrightarrow> last (dropWhile P xs) = last xs"
  by (induction xs) auto

lemma trim_ends:
  assumes "trim s \<noteq> []"
  shows "\<not> isWhiteSpace (hd (trim s))" and "\<not> isWhiteSpace (last (trim s))"
proof -
  let ?t = "dropWhile isWhiteSpace s"
  let ?u = "dropWhile isWhiteSpace (rev ?t)"
  from assms have u: "?u \<noteq> []" by (simp add: trim_def)
  have t: "?t \<noteq> []"
  proof
    assume e: "?t = []"
    have "?u = []" by (simp only: e rev.simps dropWhile.simps)
    with u show False by simp
  qed
  have "hd (trim s) = last ?u" using u by (simp add: trim_def hd_rev)
  also have "\<dots> = last (rev ?t)" using u by (rule last_dropWhile)
  also have "\<dots> = hd ?t" using t by (simp add: last_rev)
  finally show "\<not> isWhiteSpace (hd (trim s))" using hd_dropWhile [OF t] by simp
  have "last (trim s) = hd ?u" using u by (simp add: trim_def last_rev)
  then show "\<not> isWhiteSpace (last (trim s))" using hd_dropWhile [OF u] by simp
qed

lemma trim_fixed:
  assumes "s \<noteq> []" "\<not> isWhiteSpace (hd s)" "\<not> isWhiteSpace (last s)"
  shows "trim s = s"
proof -
  from assms have 1: "dropWhile isWhiteSpace s = s" by (cases s) auto
  from assms have "rev s \<noteq> []" "\<not> isWhiteSpace (hd (rev s))" by (simp_all add: hd_rev)
  then have "dropWhile isWhiteSpace (rev s) = rev s" by (cases "rev s") auto
  with 1 show ?thesis by (simp add: trim_def)
qed

lemma trim_idem: "trim (trim s) = trim s"
proof (cases "trim s = []")
  case True
  have "trim [] = []" by (simp add: trim_def)
  with True show ?thesis by simp
next
  case False
  then show ?thesis by (intro trim_fixed trim_ends)
qed

lemma match_separator_Cons:
  "match_separator (c # cs) =
     (if c = 0x3B then Some 1
      else (case cs of [] \<Rightarrow> None
            | d # ds \<Rightarrow> if (c = 0x7C \<and> d = 0x7C) \<or> (c = 0x26 \<and> d = 0x26)
                        then Some 2 else None))"
  by (auto simp: match_separator_def split: list.splits)

lemma take_Suc_diff:
  "p \<le> q \<Longrightarrow> q < length S \<Longrightarrow> take (Suc q - p) (drop p S) = take (q - p) (drop p S) @ [S ! q]"
  by (simp add: Suc_diff_le take_Suc_conv_app_nth)

lemma fragments_from_match:
  assumes "match_separator s = Some n"
  shows "fragments_from cur s = cur # fragments_from [] (drop n s)"
proof (cases s)
  case Nil
  with assms show ?thesis by (simp add: match_separator_def)
next
  case (Cons c cs)
  show ?thesis
  proof (cases "c = 0x3B")
    case True
    with assms Cons have "n = 1" by (simp add: match_separator_Cons)
    with True Cons show ?thesis by simp
  next
    case False
    with assms Cons obtain d ds where cs: "cs = d # ds"
      and op: "(c = 0x7C \<and> d = 0x7C) \<or> (c = 0x26 \<and> d = 0x26)" and n: "n = 2"
      by (cases cs) (simp_all add: match_separator_Cons split: if_splits)
    with False Cons show ?thesis by simp
  qed
qed

lemma fragments_from_no_match:
  assumes "match_separator (c # cs) = None"
  shows "fragments_from cur (c # cs) = fragments_from (cur @ [c]) cs"
proof (cases cs)
  case Nil
  from assms have "c \<noteq> 0x3B"
    by (simp add: match_separator_Cons split: if_splits)
  then show ?thesis
    unfolding Nil by (subst fragments_from.simps(2) [of cur c "[]"]) (simp del: fragments_from.simps)
next
  case (Cons d ds)
  from assms have "c \<noteq> 0x3B" "\<not> ((c = 0x7C \<and> d = 0x7C) \<or> (c = 0x26 \<and> d = 0x26))"
    unfolding Cons by (simp_all add: match_separator_Cons split: if_splits)
  then show ?thesis
    unfolding Cons
    by (subst fragments_from.simps(2) [of cur c "d # ds"]) (auto simp del: fragments_from.simps)
qed

lemma match_separator_length:
  "match_separator s = Some n \<Longrightarrow> 0 < n \<and> n \<le> length s"
  by (auto simp: match_separator_def split: if_splits dest!: arg_cong [where f = length])

lemma split_loop_fragments:
  "p \<le> q \<Longrightarrow> q \<le> length S \<Longrightarrow>
   split_loop S p q = fragments_from (take (q - p) (drop p S)) (drop q S)"
proof (induction S p q rule: split_loop.induct)
  case (1 S p q)
  show ?case
  proof (cases "q < length S")
    case False
    with 1(4,5) show ?thesis by (subst split_loop.simps) simp
  next
    case True
    then have dq: "drop q S = S ! q # drop (Suc q) S"
      by (simp add: Cons_nth_drop_Suc)
    show ?thesis
    proof (cases "match_separator (drop q S)")
      case None
      have "split_loop S p q = split_loop S p (q + 1)"
        using True None by (subst split_loop.simps) simp
      also have "\<dots> = fragments_from (take (Suc q - p) (drop p S)) (drop (Suc q) S)"
        using "1.IH"(1) [OF True None] 1(4) True by simp
      also have "\<dots> = fragments_from (take (q - p) (drop p S) @ [S ! q]) (drop (Suc q) S)"
        using 1(4) True by (simp add: take_Suc_diff)
      also have "\<dots> = fragments_from (take (q - p) (drop p S)) (S ! q # drop (Suc q) S)"
        by (rule fragments_from_no_match [symmetric]) (use None dq in simp)
      also have "\<dots> = fragments_from (take (q - p) (drop p S)) (drop q S)"
        by (simp only: dq)
      finally show ?thesis .
    next
      case (Some n)
      then have n: "0 < n" "q + n \<le> length S"
        using True match_separator_length [of "drop q S" n] by auto
      then have e: "min (q + n) (length S) = q + n" "q + n \<noteq> p" using 1(4) by auto
      have "split_loop S p q = take (q - p) (drop p S) # split_loop S (q + n) (q + n)"
        using True Some e by (subst split_loop.simps) (simp add: Let_def)
      also have "split_loop S (q + n) (q + n) = fragments_from [] (drop (q + n) S)"
        using "1.IH"(3) [OF True Some refl] e n by simp
      also have "take (q - p) (drop p S) # fragments_from [] (drop (q + n) S) =
                 fragments_from (take (q - p) (drop p S)) (drop q S)"
        by (simp add: fragments_from_match [OF Some] add.commute)
      finally show ?thesis .
    qed
  qed
qed

lemma split_separators_fragments: "split_separators S = fragments_from [] S"
  by (cases S) (simp_all add: split_separators_def split_loop_fragments)

lemma foldl_push_trimmed:
  "foldl push_trimmed acc parts = acc @ filter (\<lambda>f. f \<noteq> []) (map trim parts)"
  by (induction parts arbitrary: acc) (auto simp: push_trimmed_def Let_def)

lemma foldl_lines:
  "foldl (\<lambda>commands line. foldl push_trimmed commands (g line)) acc ls =
   acc @ concat (map (\<lambda>line. filter (\<lambda>f. f \<noteq> []) (map trim (g line))) ls)"
  by (induction ls arbitrary: acc) (auto simp: foldl_push_trimmed)

lemma splitCommands_concat:
  "splitCommands s =
   concat (map (\<lambda>line. filter (\<lambda>f. f \<noteq> []) (map trim (fragments_from [] line)))
               (split_newline s))"
  by (simp add: splitCommands_def foldl_lines split_separators_fragments [abs_def])

lemma split_newline_from_first:
  "split_newline_from cur s =
     (if 0x0A \<in> set s
      then (cur @ takeWhile (\<lambda>c. c \<noteq> 0x0A) s) #
           split_newline_from [] (tl (dropWhile (\<lambda>c. c \<noteq> 0x0A) s))
      else [cur @ s])"
  by (induction s arbitrary: cur) simp_all

lemma split_newline_spec_lines: "split_newline s = spec_lines s"
proof (induction s rule: spec_lines.induct)
  case (1 s)
  show ?case
  proof (cases "0x0A \<in> set s")
    case True
    have "split_newline s =
        takeWhile (\<lambda>c. c \<noteq> 0x0A) s # split_newline (tl (dropWhile (\<lambda>c. c \<noteq> 0x0A) s))"
      unfolding split_newline_def using True by (subst split_newline_from_first) simp
    also have "\<dots> = spec_lines s"
      using True "1.IH" [OF True] by (subst spec_lines.simps) simp
    finally show ?thesis .
  next
    case False
    have "split_newline s = [s]"
      unfolding split_newline_def using False by (subst split_newline_from_first) simp
    also have "\<dots> = spec_lines s"
      using False by (subst spec_lines.simps) simp
    finally show ?thesis .
  qed
qed

lemma en_quad_to_hair_space:
  fixes c :: "16 word"
  shows "0x2000 \<le> c \<and> c \<le> 0x200A \<longleftrightarrow>
    c \<in> {0x2000, 0x2001, 0x2002, 0x2003, 0x2004, 0x2005, 0x2006, 0x2007, 0x2008, 0x2009, 0x200A}"
proof
  assume "0x2000 \<le> c \<and> c \<le> 0x200A"
  then have "8192 \<le> unat c" "unat c \<le> 8202" by (simp_all add: word_le_nat_alt)
  then have "unat c \<in> {8192, 8193, 8194, 8195, 8196, 8197, 8198, 8199, 8200, 8201, 8202}"
    by simp arith
  then have "of_nat (unat c) \<in>
      (of_nat ` {8192, 8193, 8194, 8195, 8196, 8197, 8198, 8199, 8200, 8201, 8202} :: 16 word set)"
    by (rule imageI)
  then show "c \<in> {0x2000, 0x2001, 0x2002, 0x2003, 0x2004, 0x2005, 0x2006, 0x2007, 0x2008,
      0x2009, 0x200A}"
    by simp
next
  assume "c \<in> {0x2000, 0x2001, 0x2002, 0x2003, 0x2004, 0x2005, 0x2006, 0x2007, 0x2008,
      0x2009, 0x200A}"
  then show "0x2000 \<le> c \<and> c \<le> 0x200A" by auto
qed

lemma isWhiteSpace_spec: "isWhiteSpace c = spec_white_space c"
  unfolding isWhiteSpace_def en_quad_to_hair_space spec_white_space_def white_space_units_def
  by auto

lemma strip_leading_dropWhile: "strip_leading s = dropWhile isWhiteSpace s"
  by (induction s) (simp_all add: isWhiteSpace_spec)

lemma strip_trailing_rev: "strip_trailing s = rev (dropWhile isWhiteSpace (rev s))"
  by (induction s) (simp_all add: dropWhile_append list_all_iff isWhiteSpace_spec)

lemma trim_spec_trim: "trim s = spec_trim s"
  by (simp add: trim_def spec_trim_def strip_leading_dropWhile strip_trailing_rev)

lemma splitCommands_spec_eq: "splitCommands s = spec_splitCommands s"
  by (simp add: splitCommands_concat spec_splitCommands_def spec_fragments_def
      split_newline_spec_lines trim_spec_trim [abs_def])

lemma not_ws_ops [simp]:
  "\<not> isWhiteSpace 0x7C" "\<not> isWhiteSpace 0x26" "\<not> isWhiteSpace 0x3B" "isWhiteSpace 0x0A"
  "isWhiteSpace 0x20"
  by (simp_all add: isWhiteSpace_def)

lemma only_separators_ws_append:
  "list_all isWhiteSpace t \<Longrightarrow> only_separators s \<Longrightarrow> only_separators (t @ s)"
  by (induction t) simp_all

lemma only_separators_concat:
  assumes "\<forall>t\<in>set toks. t = js ''||'' \<or> t = js ''&&'' \<or> t = js '';'' \<or> list_all isWhiteSpace t"
  shows "only_separators (concat toks)"
  using assms
proof (induction toks)
  case Nil
  then show ?case by simp
next
  case (Cons t toks)
  then have rest: "only_separators (concat toks)" by simp
  from Cons.prems consider "t = [0x7C, 0x7C]" | "t = [0x26, 0x26]" | "t = [0x3B]"
    | "list_all isWhiteSpace t"
    by (auto simp: js_def)
  then show ?case
  proof cases
    case 4
    with rest show ?thesis by (simp add: only_separators_ws_append)
  qed (use rest in simp_all)
qed

lemma only_separators_newline:
  "only_separators (a @ 0x0A # b) \<Longrightarrow> only_separators a \<and> only_separators b"
proof (induction a rule: only_separators.induct)
  case 1
  then show ?case by simp
next
  case (2 c cs)
  show ?case
  proof (cases "isWhiteSpace c \<or> c = 0x3B")
    case True
    with 2 show ?thesis by simp
  next
    case False
    show ?thesis
    proof (cases cs)
      case Nil
      with False 2(3) show ?thesis by auto
    next
      case (Cons d ds)
      with False 2(2) [OF False Cons] 2(3) show ?thesis by auto
    qed
  qed
qed

lemma only_separators_lines:
  "only_separators (cur @ s) \<Longrightarrow> \<forall>l\<in>set (split_newline_from cur s). only_separators l"
proof (induction s arbitrary: cur)
  case Nil
  then show ?case by simp
next
  case (Cons c cs)
  show ?case
  proof (cases "c = 0x0A")
    case True
    with Cons.prems have "only_separators cur" "only_separators ([] @ cs)"
      using only_separators_newline [of cur cs] by simp_all
    with True Cons.IH [of "[]"] show ?thesis by simp
  next
    case False
    with Cons.IH [of "cur @ [c]"] Cons.prems show ?thesis by simp
  qed
qed

lemma only_separators_fragments:
  "list_all isWhiteSpace cur \<Longrightarrow> only_separators s \<Longrightarrow>
   \<forall>f\<in>set (fragments_from cur s). list_all isWhiteSpace f"
proof (induction cur s rule: fragments_from.induct)
  case (1 cur)
  then show ?case by simp
next
  case (2 cur c cs)
  note ws = "2.prems"(1) and os = "2.prems"(2)
  show ?case
  proof (cases "c = 0x3B")
    case True
    with os have "only_separators cs" by simp
    with True ws "2.IH"(1) show ?thesis by simp
  next
    case nsemi: False
    show ?thesis
    proof (cases cs)
      case Nil
      with nsemi os have "isWhiteSpace c" by (auto split: if_splits)
      with nsemi Nil ws show ?thesis by simp
    next
      case (Cons d ds)
      show ?thesis
      proof (cases "(c = 0x7C \<and> d = 0x7C) \<or> (c = 0x26 \<and> d = 0x26)")
        case True
        with nsemi Cons os have "only_separators ds" by (auto split: if_splits)
        with "2.IH"(3) [OF nsemi Cons True] have "\<forall>f\<in>set (fragments_from [] ds). list_all isWhiteSpace f"
          by simp
        with nsemi Cons True ws show ?thesis
          by (subst fragments_from.simps(2)) (auto simp del: fragments_from.simps)
      next
        case False
        with nsemi Cons os have "isWhiteSpace c" "only_separators cs"
          by (auto split: if_splits)
        with "2.IH"(4) [OF nsemi Cons False] ws
        have "\<forall>f\<in>set (fragments_from (cur @ [c]) cs). list_all isWhiteSpace f"
          by simp
        with nsemi Cons False show ?thesis
          by (subst fragments_from.simps(2)) (auto simp del: fragments_from.simps)
      qed
    qed
  qed
qed

lemma splitCommands_Nil_iff:
  "splitCommands s = [] \<longleftrightarrow>
   (\<forall>l\<in>set (split_newline s). \<forall>f\<in>set (fragments_from [] l). list_all isWhiteSpace f)"
  by (auto simp: splitCommands_concat filter_empty_conv trim_empty_iff)

lemma only_separators_splitCommands: "only_separators s \<Longrightarrow> splitCommands s = []"
  unfolding splitCommands_Nil_iff split_newline_def
  using only_separators_lines [of "[]" s] only_separators_fragments [of "[]"]
  by auto

lemma splitCommands_entries:
  "e \<in> set (splitCommands s) \<Longrightarrow> e \<noteq> [] \<and> (\<exists>f. e = trim f)"
  by (auto simp: splitCommands_concat)

lemma js_simps [simp]:
  "js [] = []" "js (c # cs) = of_nat (of_char c) # js cs"
  by (simp_all add: js_def)

lemma splitCommands_example:
  "splitCommands (js ''  a ;; b  '') = [js ''a'', js ''b'']"
  by code_simp

lemma js_status_distinct: "js ''success'' \<noteq> js ''failed''"
  by simp

section \<open>Claims about splitCommands\<close>

text \<open>
  Claim C3. For every input string, every entry of the list returned by
  \<open>splitCommands\<close> is non-empty and carries no leading or trailing white space: it has
  positive length, equals its own trimmed form, and neither its first nor its last code
  unit is white space.
\<close>

theorem splitCommands_entries_trimmed:
  "\<forall>e\<in>set (splitCommands s).
     0 < length e \<and> trim e = e \<and> \<not> isWhiteSpace (hd e) \<and> \<not> isWhiteSpace (last e)"
proof
  fix e
  assume "e \<in> set (splitCommands s)"
  then obtain f where e: "e \<noteq> []" "e = trim f"
    using splitCommands_entries by blast
  then show "0 < length e \<and> trim e = e \<and> \<not> isWhiteSpace (hd e) \<and> \<not> isWhiteSpace (last e)"
    using trim_idem [of f] trim_ends [of f] by simp
qed

text \<open>An instance: the entry \<open>a\<close> of the commands of \<open>"  a ;; b  "\<close>.\<close>

theorem splitCommands_entries_trimmed_witness:
  "js ''a'' \<in> set (splitCommands (js ''  a ;; b  '')) \<and>
   0 < length (js ''a'') \<and> trim (js ''a'') = js ''a'' \<and>
   \<not> isWhiteSpace (hd (js ''a'')) \<and> \<not> isWhiteSpace (last (js ''a''))"
proof -
  have m: "js ''a'' \<in> set (splitCommands (js ''  a ;; b  ''))"
    by (simp only: splitCommands_example) simp
  with splitCommands_entries_trimmed [of "js ''  a ;; b  ''"] show ?thesis
    by blast
qed

text \<open>
  Claim C4. For every input string, \<open>splitCommands\<close> equals the reference algorithm:
  split on line feeds into lines, split each line at every occurrence of \<open>||\<close>,
  \<open>&&\<close> or \<open>;\<close> without regard to quoting, trim each fragment, drop the fragments that
  are empty after trimming, and concatenate in line order and left-to-right order within
  a line. In particular \<open>"a && b; c || d"\<close> gives \<open>a\<close>, \<open>b\<close>, \<open>c\<close>, \<open>d\<close> in that order.
  The reference algorithm \<open>spec_splitCommands\<close> shares no function with the code.
\<close>

theorem splitCommands_refines_spec:
  "splitCommands s = spec_splitCommands s \<and>
   splitCommands (js ''a && b; c || d'') = [js ''a'', js ''b'', js ''c'', js ''d'']"
proof
  show "splitCommands s = spec_splitCommands s" by (rule splitCommands_spec_eq)
  show "splitCommands (js ''a && b; c || d'') = [js ''a'', js ''b'', js ''c'', js ''d'']"
    by code_simp
qed

text \<open>
  An instance with three line feeds, an empty line, white space inside a command and at
  both ends, and a trailing operator.
\<close>

theorem splitCommands_refines_spec_witness:
  "splitCommands (js '' cd /w && npm i\<newline>\<newline>ls -la ;\<newline> x||'') =
     spec_splitCommands (js '' cd /w && npm i\<newline>\<newline>ls -la ;\<newline> x||'') \<and>
   spec_splitCommands (js '' cd /w && npm i\<newline>\<newline>ls -la ;\<newline> x||'') =
     [js ''cd /w'', js ''npm i'', js ''ls -la'', js ''x''] \<and>
   spec_lines (js '' cd /w && npm i\<newline>\<newline>ls -la ;\<newline> x||'') =
     [js '' cd /w && npm i'', js [], js ''ls -la ;'', js '' x||'']"
proof -
  have e: "spec_splitCommands (js '' cd /w && npm i\<newline>\<newline>ls -la ;\<newline> x||'') =
     [js ''cd /w'', js ''npm i'', js ''ls -la'', js ''x'']"
    by code_simp
  have l: "spec_lines (js '' cd /w && npm i\<newline>\<newline>ls -la ;\<newline> x||'') =
     [js '' cd /w && npm i'', js [], js ''ls -la ;'', js '' x||'']"
    by code_simp
  have c: "splitCommands (js '' cd /w && npm i\<newline>\<newline>ls -la ;\<newline> x||'') =
     spec_splitCommands (js '' cd /w && npm i\<newline>\<newline>ls -la ;\<newline> x||'')"
    using splitCommands_refines_spec [of "js '' cd /w && npm i\<newline>\<newline>ls -la ;\<newline> x||''"]
    by (rule conjunct1)
  from c e l show ?thesis by (intro conjI)
qed

text \<open>
  Claim C9. \<open>splitCommands\<close> returns the empty sequence for the empty string, for
  every input of white space only (line feeds included), and for every input that is a
  sequence of separator operators and white space; in particular for \<open>""\<close>,
  \<open>"   \n\n   "\<close> and \<open>"&& || ;"\<close>.
\<close>

theorem splitCommands_empty:
  "splitCommands (js '''') = [] \<and>
   (list_all isWhiteSpace w \<longrightarrow> splitCommands w = []) \<and>
   ((\<forall>t\<in>set toks. t = js ''||'' \<or> t = js ''&&'' \<or> t = js '';'' \<or> list_all isWhiteSpace t)
      \<longrightarrow> splitCommands (concat toks) = []) \<and>
   splitCommands (js ''   \<newline>\<newline>   '') = [] \<and>
   splitCommands (js ''&& || ;'') = []"
proof (intro conjI impI)
  show "splitCommands (js '''') = []" by code_simp
  show "splitCommands (js ''   \<newline>\<newline>   '') = []" by code_simp
  show "splitCommands (js ''&& || ;'') = []" by code_simp
next
  assume "list_all isWhiteSpace w"
  then have "only_separators (w @ [])" by (intro only_separators_ws_append) simp_all
  then show "splitCommands w = []" by (simp add: only_separators_splitCommands)
next
  assume "\<forall>t\<in>set toks. t = js ''||'' \<or> t = js ''&&'' \<or> t = js '';'' \<or> list_all isWhiteSpace t"
  then show "splitCommands (concat toks) = []"
    by (intro only_separators_splitCommands only_separators_concat)
qed

text \<open>Instances of the two general parts.\<close>

theorem splitCommands_empty_witness:
  "list_all isWhiteSpace (js '' \<newline> '') \<and> splitCommands (js '' \<newline> '') = [] \<and>
   splitCommands (concat [js '';'', js '' '', js ''&&'', js ''||'', js '' \<newline>'']) = []"
proof -
  have 1: "list_all isWhiteSpace (js '' \<newline> '')" by simp
  have 2: "\<forall>t\<in>set [js '';'', js '' '', js ''&&'', js ''||'', js '' \<newline>''].
      t = js ''||'' \<or> t = js ''&&'' \<or> t = js '';'' \<or> list_all isWhiteSpace t"
    by simp
  from 1 2 splitCommands_empty [of "js '' \<newline> ''" "[js '';'', js '' '', js ''&&'', js ''||'', js '' \<newline>'']"]
  show ?thesis by blast
qed

section \<open>Claims about processTerminalExecution\<close>

text \<open>
  Claim C5. \<open>processTerminalExecution\<close> returns null if and only if the command line
  is empty or white space only, or the flag for capturing successes only is set and the
  status derived from the exit code is not success. In every other case it returns the
  request that carries \<open>splitCommands commandLine\<close> and the options made of the context
  and the status.
\<close>

theorem processTerminalExecution_null_iff:
  "(processTerminalExecution commandLine exitCode workspaceContext captureSuccessOnly = None
      \<longleftrightarrow> (commandLine = [] \<or> list_all isWhiteSpace commandLine)
          \<or> (captureSuccessOnly \<and>
              (if exitCode = Some 0 then js ''success'' else js ''failed'') \<noteq> js ''success''))
   \<and> (processTerminalExecution commandLine exitCode workspaceContext captureSuccessOnly \<noteq> None
      \<longrightarrow> processTerminalExecution commandLine exitCode workspaceContext captureSuccessOnly =
          Some \<lparr>commands = splitCommands commandLine,
                options' = \<lparr>context' = workspaceContext,
                             status = (if exitCode = Some 0 then js ''success''
                                       else js ''failed'')\<rparr>\<rparr>)"
  using js_status_distinct
  by (auto simp: processTerminalExecution_def trim_empty_iff Let_def)

text \<open>A failed command with the flag unset and set, and a blank command line.\<close>

theorem processTerminalExecution_null_iff_witness:
  "processTerminalExecution (js ''a; b'') (Some 1) (Some (js ''/w'')) False \<noteq> None \<and>
   processTerminalExecution (js ''a; b'') (Some 1) (Some (js ''/w'')) False =
     Some \<lparr>commands = [js ''a'', js ''b''],
           options' = \<lparr>context' = Some (js ''/w''), status = js ''failed''\<rparr>\<rparr> \<and>
   processTerminalExecution (js ''a; b'') (Some 1) (Some (js ''/w'')) True = None \<and>
   processTerminalExecution (js '' \<newline> '') (Some 0) (Some (js ''/w'')) False = None"
proof -
  let ?ctx = "Some (js ''/w'')"
  have s: "splitCommands (js ''a; b'') = [js ''a'', js ''b'']" by code_simp
  have n: "\<not> list_all isWhiteSpace (js ''a; b'')" "js ''a; b'' \<noteq> []"
    by (simp_all add: isWhiteSpace_def)
  have w: "list_all isWhiteSpace (js '' \<newline> '')" by simp
  note t1 = processTerminalExecution_null_iff [of "js ''a; b''" "Some 1" ?ctx False]
  note t2 = processTerminalExecution_null_iff [of "js ''a; b''" "Some 1" ?ctx True]
  note t3 = processTerminalExecution_null_iff [of "js '' \<newline> ''" "Some 0" ?ctx False]
  have a: "processTerminalExecution (js ''a; b'') (Some 1) ?ctx False \<noteq> None"
    using t1 [THEN conjunct1] n by simp
  have b: "processTerminalExecution (js ''a; b'') (Some 1) ?ctx False =
     Some \<lparr>commands = [js ''a'', js ''b''],
           options' = \<lparr>context' = ?ctx, status = js ''failed''\<rparr>\<rparr>"
    using t1 [THEN conjunct2, rule_format, OF a] by (simp only: s) simp
  have c: "processTerminalExecution (js ''a; b'') (Some 1) ?ctx True = None"
    using t2 [THEN conjunct1] js_status_distinct by simp
  have d: "processTerminalExecution (js '' \<newline> '') (Some 0) ?ctx False = None"
    using t3 [THEN conjunct1] w by simp
  from a b c d show ?thesis by blast
qed

text \<open>
  Claim C6. For every input that is not skipped, the status of the returned request is
  \<open>success\<close> if and only if the exit code is exactly 0; every other exit code, an absent
  one included, gives \<open>failed\<close>.
\<close>

theorem processTerminalExecution_status:
  "processTerminalExecution commandLine exitCode workspaceContext captureSuccessOnly = Some r \<Longrightarrow>
   (status (options' r) = js ''success'' \<longleftrightarrow> exitCode = Some 0) \<and>
   (exitCode \<noteq> Some 0 \<longrightarrow> status (options' r) = js ''failed'')"
  using js_status_distinct
  by (auto simp: processTerminalExecution_def Let_def split: if_splits)

text \<open>An absent exit code and the exit code 0.\<close>

theorem processTerminalExecution_status_witness:
  "(\<exists>r. processTerminalExecution (js ''ls'') None (Some (js ''/workspace'')) False = Some r \<and>
        status (options' r) = js ''failed'' \<and> status (options' r) \<noteq> js ''success'') \<and>
   (\<exists>r. processTerminalExecution (js ''cmd'') (Some 0) None False = Some r \<and>
        status (options' r) = js ''success'')"
proof -
  have "processTerminalExecution (js ''ls'') None (Some (js ''/workspace'')) False \<noteq> None"
    by (simp add: processTerminalExecution_def trim_empty_iff isWhiteSpace_def)
  then obtain r where r: "processTerminalExecution (js ''ls'') None (Some (js ''/workspace'')) False = Some r"
    by blast
  have "processTerminalExecution (js ''cmd'') (Some 0) None False \<noteq> None"
    by (simp add: processTerminalExecution_def trim_empty_iff isWhiteSpace_def)
  then obtain r' where r': "processTerminalExecution (js ''cmd'') (Some 0) None False = Some r'"
    by blast
  from processTerminalExecution_status [OF r] processTerminalExecution_status [OF r'] r r'
  show ?thesis by auto
qed

text \<open>
  Claim C10. There are command lines that are neither empty nor white space only but
  consist of separator operators and white space, such as \<open>;\<close> and \<open>&& || ;\<close>, for
  which \<open>processTerminalExecution\<close> with exit code 0 and the flag unset returns a request
  whose list of commands is empty, not null.
\<close>

theorem processTerminalExecution_no_commands:
  "js '';'' \<noteq> [] \<and> \<not> list_all isWhiteSpace (js '';'') \<and>
   processTerminalExecution (js '';'') (Some 0) workspaceContext False =
     Some \<lparr>commands = [],
           options' = \<lparr>context' = workspaceContext, status = js ''success''\<rparr>\<rparr> \<and>
   js ''&& || ;'' \<noteq> [] \<and> \<not> list_all isWhiteSpace (js ''&& || ;'') \<and>
   processTerminalExecution (js ''&& || ;'') (Some 0) workspaceContext False =
     Some \<lparr>commands = [],
           options' = \<lparr>context' = workspaceContext, status = js ''success''\<rparr>\<rparr>"
proof -
  have 1: "splitCommands (js '';'') = []" by code_simp
  have 2: "splitCommands (js ''&& || ;'') = []" by code_simp
  from 1 2 show ?thesis
    by (simp add: processTerminalExecution_def trim_empty_iff)
qed

section \<open>Facts about chains of promises\<close>

lemma settles_simps [simp]:
  "settles Resolves = Some Fulfilled" "settles Rejects = Some Rejected"
  "settles Throws = Some Rejected" "settles Hangs = None"
  by (simp_all add: settles_def)

lemma settles_None_iff [simp]: "settles r = None \<longleftrightarrow> r = Hangs"
  by (simp add: settles_def split: outcome.splits)

lemma step_Then_unsettled:
  "\<not> (\<exists>s. p = Settled s) \<Longrightarrow>
   step (Then p k operation) = map_option (\<lambda>(p', es). (Then p' k operation, es)) (step p)"
  by (cases p) simp_all

lemma step_Catch_unsettled:
  "\<not> (\<exists>s. p = Settled s) \<Longrightarrow>
   step (Catch p) = map_option (\<lambda>(p', es). (Catch p', es)) (step p)"
  by (cases p) simp_all

lemma call_future:
  "call k operation = (p', es) \<Longrightarrow>
   es @ future p' = block k operation \<and> fate p' = settles (result operation)"
  by (auto simp: call_def block_def split: if_splits)

lemma step_Running:
  assumes "step (Running k as r) = Some (p', es)"
  shows "future (Running k as r) = es @ future p' \<and>
     fate (Running k as r) = fate p' \<and> fuel p' < fuel (Running k as r)"
proof (cases as)
  case Nil
  with assms show ?thesis by (cases "settles r") auto
next
  case (Cons a as')
  with assms show ?thesis by (cases a) auto
qed

lemma step_future:
  "step p = Some (p', es) \<Longrightarrow> future p = es @ future p' \<and> fate p = fate p'"
proof (induction p arbitrary: p' es)
  case (Settled s)
  then show ?case by simp
next
  case (Then p k operation)
  show ?case
  proof (cases "\<exists>s. p = Settled s")
    case True
    then obtain s where s: "p = Settled s" by blast
    show ?thesis
    proof (cases s)
      case Fulfilled
      with s Then.prems have "call k operation = (p', es)" by simp
      from call_future [OF this] s Fulfilled show ?thesis by simp
    next
      case Rejected
      with s Then.prems show ?thesis by auto
    qed
  next
    case False
    from Then.prems
    have "map_option (\<lambda>(p', es). (Then p' k operation, es)) (step p) = Some (p', es)"
      by (simp only: step_Then_unsettled [OF False])
    then obtain q where q: "step p = Some (q, es)" "p' = Then q k operation"
      by auto
    from Then.IH [OF q(1)] q(2) show ?thesis by simp
  qed
next
  case (Running k as r)
  from step_Running [OF Running] show ?case by blast
next
  case (Catch p)
  show ?case
  proof (cases "\<exists>s. p = Settled s")
    case True
    with Catch.prems show ?thesis by auto
  next
    case False
    from Catch.prems
    have "map_option (\<lambda>(p', es). (Catch p', es)) (step p) = Some (p', es)"
      by (simp only: step_Catch_unsettled [OF False])
    then obtain q where q: "step p = Some (q, es)" "p' = Catch q"
      by auto
    from Catch.IH [OF q(1)] q(2) show ?thesis by simp
  qed
qed

lemma step_fuel: "step p = Some (p', es) \<Longrightarrow> fuel p' < fuel p"
proof (induction p arbitrary: p' es)
  case (Settled s)
  then show ?case by simp
next
  case (Then p k operation)
  show ?case
  proof (cases "\<exists>s. p = Settled s")
    case True
    with Then.prems show ?thesis
      by (auto simp: call_def split: settlement.splits if_splits)
  next
    case False
    from Then.prems
    have "map_option (\<lambda>(p', es). (Then p' k operation, es)) (step p) = Some (p', es)"
      by (simp only: step_Then_unsettled [OF False])
    then obtain q where q: "step p = Some (q, es)" "p' = Then q k operation"
      by auto
    from Then.IH [OF q(1)] q(2) show ?thesis by simp
  qed
next
  case (Running k as r)
  from step_Running [OF Running] show ?case by blast
next
  case (Catch p)
  show ?case
  proof (cases "\<exists>s. p = Settled s")
    case True
    with Catch.prems show ?thesis by auto
  next
    case False
    from Catch.prems
    have "map_option (\<lambda>(p', es). (Catch p', es)) (step p) = Some (p', es)"
      by (simp only: step_Catch_unsettled [OF False])
    then obtain q where q: "step p = Some (q, es)" "p' = Catch q"
      by auto
    from Catch.IH [OF q(1)] q(2) show ?thesis by simp
  qed
qed

lemma step_None_settled: "step p = None \<Longrightarrow> fate p = Some st \<Longrightarrow> p = Settled st"
proof (induction p arbitrary: st)
  case (Settled s)
  then show ?case by simp
next
  case (Then p k operation)
  show ?case
  proof (cases "\<exists>s. p = Settled s")
    case True
    with Then.prems show ?thesis by (auto split: settlement.splits)
  next
    case False
    from Then.prems(1)
    have "map_option (\<lambda>(p', es). (Then p' k operation, es)) (step p) = None"
      by (simp only: step_Then_unsettled [OF False])
    then have n: "step p = None" by simp
    from Then.prems(2) obtain st' where "fate p = Some st'"
      by (auto split: option.splits)
    from Then.IH [OF n this] False show ?thesis by blast
  qed
next
  case (Running k as r)
  then show ?case
    by (cases as) (auto split: action.splits option.splits)
next
  case (Catch p)
  show ?case
  proof (cases "\<exists>s. p = Settled s")
    case True
    with Catch.prems show ?thesis by auto
  next
    case False
    from Catch.prems(1)
    have "map_option (\<lambda>(p', es). (Catch p', es)) (step p) = None"
      by (simp only: step_Catch_unsettled [OF False])
    then have n: "step p = None" by simp
    from Catch.prems(2) obtain st' where "fate p = Some st'"
      by (auto split: option.splits)
    from Catch.IH [OF n this] False show ?thesis by blast
  qed
qed

lemma step_None_future: "step p = None \<Longrightarrow> future p = []"
proof (induction p)
  case (Settled s)
  then show ?case by simp
next
  case (Then p k operation)
  show ?case
  proof (cases "\<exists>s. p = Settled s")
    case True
    with Then.prems show ?thesis by (auto split: settlement.splits)
  next
    case False
    from Then.prems
    have "map_option (\<lambda>(p', es). (Then p' k operation, es)) (step p) = None"
      by (simp only: step_Then_unsettled [OF False])
    then have n: "step p = None" by simp
    have "fate p \<noteq> Some Fulfilled"
      using step_None_settled [OF n] False by blast
    with Then.IH [OF n] show ?thesis by simp
  qed
next
  case (Running k as r)
  then show ?case
    by (cases as) (auto split: action.splits option.splits)
next
  case (Catch p)
  show ?case
  proof (cases "\<exists>s. p = Settled s")
    case True
    with Catch.prems show ?thesis by auto
  next
    case False
    from Catch.prems
    have "map_option (\<lambda>(p', es). (Catch p', es)) (step p) = None"
      by (simp only: step_Catch_unsettled [OF False])
    then have n: "step p = None" by simp
    with Catch.IH show ?thesis by simp
  qed
qed

section \<open>Facts about lists of events\<close>

lemma own_events_append [simp]: "own_events (xs @ ys) = own_events xs @ own_events ys"
  by (induction xs rule: own_events.induct) simp_all

lemma set_own_events: "set (own_events t) = {x \<in> set t. \<forall>k e. x \<noteq> Fired k e}"
  by (induction t rule: own_events.induct) auto

lemma own_events_id: "(\<And>k e. Fired k e \<notin> set t) \<Longrightarrow> own_events t = t"
  by (induction t rule: own_events.induct) auto

lemma Fired_acts [simp]: "Fired j e \<notin> set (acts k as)"
  by (induction k as rule: acts.induct) simp_all

lemma Started_acts [simp]: "Started j \<notin> set (acts k as)"
  by (induction k as rule: acts.induct) simp_all

lemma Finished_acts [simp]: "Finished j st \<notin> set (acts k as)"
  by (induction k as rule: acts.induct) simp_all

lemma Did_acts [simp]: "Did j e \<in> set (acts k as) \<longleftrightarrow> j = k \<and> e \<in> set (effects as)"
  by (induction k as rule: acts.induct) auto

lemma Deferred_acts: "Deferred j e \<in> set (acts k as) \<Longrightarrow> j = k \<and> Defer e \<in> set as"
  by (induction k as rule: acts.induct) auto

lemma Fired_block [simp]: "Fired j e \<notin> set (block k operation)"
  by (simp add: block_def split: option.splits)

lemma Started_block [simp]: "Started j \<in> set (block k operation) \<longleftrightarrow> j = k"
  by (auto simp: block_def split: option.splits)

lemma Finished_block [simp]:
  "Finished j st \<in> set (block k operation) \<longleftrightarrow> j = k \<and> settles (result operation) = Some st"
  by (auto simp: block_def split: option.splits)

lemma Did_block [simp]:
  "Did j e \<in> set (block k operation) \<longleftrightarrow> j = k \<and> e \<in> set (effects (body operation))"
  by (auto simp: block_def split: option.splits)

lemma Deferred_block:
  "Deferred j e \<in> set (block k operation) \<Longrightarrow> j = k \<and> Defer e \<in> set (body operation)"
  by (auto simp: block_def dest: Deferred_acts split: option.splits)

lemma Fired_future [simp]: "Fired j e \<notin> set (future p)"
  by (induction p) (auto split: option.splits)

lemma step_no_Fired: "step p = Some (p', es) \<Longrightarrow> Fired j e \<notin> set es"
  using step_future [of p p' es] Fired_future [of j e p] by auto

lemma step_own_events: "step p = Some (p', es) \<Longrightarrow> own_events es = es"
  by (rule own_events_id) (rule step_no_Fired)

lemma deferred_fired_append [simp]:
  "deferred_fired (xs @ ys) = deferred_fired xs @ deferred_fired ys"
  by (induction xs rule: deferred_fired.induct) simp_all

lemma set_deferred_fired: "set (deferred_fired t) = {(k, e). Fired k e \<in> set t}"
  by (induction t rule: deferred_fired.induct) auto

lemma set_deferred: "set (deferred t) = {(k, e). Deferred k e \<in> set t}"
  by (induction t rule: deferred.induct) auto

lemma side_effects_append [simp]:
  "side_effects (xs @ ys) = side_effects xs @ side_effects ys"
  by (induction xs rule: side_effects.induct) simp_all

lemma side_effects_acts [simp]: "side_effects (acts k as) = effects as"
  by (induction k as rule: acts.induct) simp_all

lemma side_effects_block [simp]: "side_effects (block k operation) = effects (body operation)"
  by (simp add: block_def split: option.splits)

lemma side_effects_serial:
  "prefix (side_effects (serial k ops)) (concat (map (\<lambda>operation. effects (body operation)) ops))"
  by (induction ops arbitrary: k) simp_all

section \<open>Reading a list of events\<close>

lemma scan_append:
  "scan st (xs @ ys) = (case scan st xs of None \<Rightarrow> None | Some st' \<Rightarrow> scan st' ys)"
  by (induction st xs rule: scan.induct) simp_all

lemma scan_prefix: "scan st (xs @ ys) \<noteq> None \<Longrightarrow> scan st xs \<noteq> None"
  by (auto simp: scan_append split: option.splits)

lemma scan_own_events: "scan st t = Some st' \<Longrightarrow> scan st (own_events t) = Some st'"
  by (induction st t rule: scan.induct) (auto split: if_splits)

lemma scan_mono: "scan (n, b) t = Some (n', b') \<Longrightarrow> n \<le> n'"
proof (induction "(n, b)" t arbitrary: n b rule: scan.induct)
  case 1
  then show ?case by simp
next
  case (2 n busy k es)
  then show ?case by (fastforce split: if_splits)
qed (auto split: if_splits)

lemma scan_Deferred_bound:
  "scan (n, b) t = Some (n', b') \<Longrightarrow> Deferred k e \<in> set t \<Longrightarrow> k < n'"
proof (induction "(n, b)" t arbitrary: n b rule: scan.induct)
  case 1
  then show ?case by simp
next
  case (4 n busy j d es)
  from "4.prems"(1) have s: "busy" "Suc j = n" "scan (n, busy) es = Some (n', b')"
    by (auto split: if_splits)
  show ?case
  proof (cases "Deferred k e \<in> set es")
    case True
    from "4.hyps" [OF _ s(3) True] s show ?thesis by simp
  next
    case False
    with "4.prems"(2) have "k = j" by simp
    with scan_mono [OF s(3)] s(2) show ?thesis by simp
  qed
qed (auto split: if_splits)

lemma scan_acts: "scan (Suc k, True) (acts k as) = Some (Suc k, True)"
  by (induction k as rule: acts.induct) simp_all

lemma scan_block: "scan (k, False) (block k operation) = Some (Suc k, result operation = Hangs)"
  by (cases "settles (result operation)") (auto simp: block_def scan_append scan_acts)

lemma scan_serial: "scan (k, False) (serial k ops) \<noteq> None"
  by (induction ops arbitrary: k) (auto simp: scan_append scan_block)

lemma before_settlement_sorted:
  "scan (n, b) t = Some st' \<Longrightarrow> (\<And>k. k < n \<Longrightarrow> \<not> (b \<and> Suc k = n) \<Longrightarrow> k \<in> set fin) \<Longrightarrow>
   sorted (map fst (before_settlement fin t)) \<and>
   (\<forall>x\<in>set (before_settlement fin t). n \<le> Suc (fst x))"
proof (induction t arbitrary: n b fin)
  case Nil
  then show ?case by simp
next
  case (Cons x t)
  note closed = Cons.prems(2)
  show ?case
  proof (cases x)
    case (Started k)
    with Cons.prems(1) have s: "\<not> b" "k = n" "scan (Suc n, True) t = Some st'"
      by (auto split: if_splits)
    have ih: "sorted (map fst (before_settlement fin t)) \<and>
        (\<forall>x\<in>set (before_settlement fin t). Suc n \<le> Suc (fst x))"
    proof (rule Cons.IH [OF s(3)])
      fix j assume "j < Suc n" "\<not> (True \<and> Suc j = Suc n)"
      then show "j \<in> set fin" using s(1) closed [of j] by simp
    qed
    with Started show ?thesis by auto
  next
    case (Did k e)
    with Cons.prems(1) have s: "b" "Suc k = n" "scan (n, b) t = Some st'"
      by (auto split: if_splits)
    have ih: "sorted (map fst (before_settlement fin t)) \<and>
        (\<forall>x\<in>set (before_settlement fin t). n \<le> Suc (fst x))"
      by (rule Cons.IH [OF s(3)]) (rule closed)
    with Did s(2) show ?thesis by auto
  next
    case (Deferred k e)
    with Cons.prems(1) have s: "scan (n, b) t = Some st'"
      by (auto split: if_splits)
    have ih: "sorted (map fst (before_settlement fin t)) \<and>
        (\<forall>x\<in>set (before_settlement fin t). n \<le> Suc (fst x))"
      by (rule Cons.IH [OF s]) (rule closed)
    with Deferred show ?thesis by simp
  next
    case (Fired k e)
    with Cons.prems(1) have s: "k < n" "scan (n, b) t = Some st'"
      by (auto split: if_splits)
    have ih: "sorted (map fst (before_settlement fin t)) \<and>
        (\<forall>x\<in>set (before_settlement fin t). n \<le> Suc (fst x))"
      by (rule Cons.IH [OF s(2)]) (rule closed)
    show ?thesis
    proof (cases "k \<in> set fin")
      case True
      with ih Fired show ?thesis by simp
    next
      case False
      with closed [of k] s(1) have "Suc k = n" by blast
      with ih Fired False show ?thesis by auto
    qed
  next
    case (Finished k st)
    with Cons.prems(1) have s: "b" "Suc k = n" "scan (n, False) t = Some st'"
      by (auto split: if_splits)
    have ih: "sorted (map fst (before_settlement (k # fin) t)) \<and>
        (\<forall>x\<in>set (before_settlement (k # fin) t). n \<le> Suc (fst x))"
    proof (rule Cons.IH [OF s(3)])
      fix j assume "j < n" "\<not> (False \<and> Suc j = n)"
      then show "j \<in> set (k # fin)" using s(2) closed [of j] by (cases "j = k") auto
    qed
    with Finished show ?thesis by simp
  qed
qed

section \<open>The invariant of the queue\<close>

lemma serial_snoc:
  "serial k (ops @ [operation]) =
   serial k ops @
   (if list_all (\<lambda>operation. result operation \<noteq> Hangs) ops
    then block (k + length ops) operation else [])"
  by (induction ops arbitrary: k) simp_all

lemma invariant_new: "invariant new_queue []"
  by (simp add: invariant_def new_queue_def cost_def)

lemma invariant_enqueue:
  assumes "invariant s ops"
  shows "invariant (enqueue operation s) (ops @ [operation])"
proof -
  from assms have c: "count s = length ops"
    and t: "own_events (trace s) @ future (queue s) = serial 0 ops"
    and f: "fate (queue s) =
       (if list_all (\<lambda>operation. result operation \<noteq> Hangs) ops then Some Fulfilled else None)"
    and u: "fuel (queue s) \<le> cost ops"
    and r: "scan (0, False) (trace s) \<noteq> None"
      "list_all (\<lambda>x. Deferred (fst x) (snd x) \<in> set (trace s)) (timers s)"
      "list_all (\<lambda>x. Deferred (fst x) (snd x) \<in> set (trace s)) (deferred_fired (trace s))"
    by (simp_all add: invariant_def)
  let ?s = "enqueue operation s"
  have 1: "count ?s = length (ops @ [operation])" using c by (simp add: enqueue_def)
  have 2: "own_events (trace ?s) @ future (queue ?s) = serial 0 (ops @ [operation])"
    using c t f by (simp add: enqueue_def serial_snoc flip: append_assoc)
  have 3: "fate (queue ?s) =
       (if list_all (\<lambda>operation. result operation \<noteq> Hangs) (ops @ [operation])
        then Some Fulfilled else None)"
    using f by (auto simp: enqueue_def split: option.splits)
  have 4: "fuel (queue ?s) \<le> cost (ops @ [operation])"
    using u by (simp add: enqueue_def cost_def)
  have 5: "trace ?s = trace s" "timers ?s = timers s" by (simp_all add: enqueue_def)
  from 1 2 3 4 r show ?thesis unfolding invariant_def 5 by blast
qed

lemma invariant_tick:
  assumes "invariant s ops"
  shows "invariant (tick s) ops"
proof (cases "step (queue s)")
  case None
  with assms show ?thesis by (simp add: tick_def)
next
  case (Some a)
  then obtain p es where s: "step (queue s) = Some (p, es)" by (cases a) simp
  then have t: "tick s = s\<lparr>queue := p, trace := trace s @ es, timers := timers s @ deferred es\<rparr>"
    by (simp add: tick_def)
  from assms have c: "count s = length ops"
    and i: "own_events (trace s) @ future (queue s) = serial 0 ops"
    and f: "fate (queue s) =
       (if list_all (\<lambda>operation. result operation \<noteq> Hangs) ops then Some Fulfilled else None)"
    and u: "fuel (queue s) \<le> cost ops"
    and r: "scan (0, False) (trace s) \<noteq> None"
    and d: "list_all (\<lambda>x. Deferred (fst x) (snd x) \<in> set (trace s)) (timers s)"
      "list_all (\<lambda>x. Deferred (fst x) (snd x) \<in> set (trace s)) (deferred_fired (trace s))"
    by (simp_all add: invariant_def)
  note o = step_own_events [OF s]
  have 2: "own_events (trace s @ es) @ future p = serial 0 ops"
    using i step_future [OF s] by (simp add: o)
  have 5: "scan (0, False) (trace s @ es) \<noteq> None"
  proof -
    from r obtain st where st: "scan (0, False) (trace s) = Some st" by blast
    have "scan (0, False) ((own_events (trace s) @ es) @ future p) \<noteq> None"
      using 2 scan_serial [of 0 ops] by (simp add: o)
    then have "scan (0, False) (own_events (trace s) @ es) \<noteq> None" by (rule scan_prefix)
    then have "scan st es \<noteq> None"
      by (simp add: scan_append scan_own_events [OF st])
    then show ?thesis by (simp add: scan_append st)
  qed
  have 6: "list_all (\<lambda>x. Deferred (fst x) (snd x) \<in> set (trace s @ es)) (timers s @ deferred es)"
    using d(1) by (auto simp: list_all_iff set_deferred)
  have "deferred_fired es = []"
    using step_no_Fired [OF s] set_deferred_fired [of es] by (cases "deferred_fired es") auto
  then have 7: "list_all (\<lambda>x. Deferred (fst x) (snd x) \<in> set (trace s @ es))
      (deferred_fired (trace s @ es))"
    using d(2) by (auto simp: list_all_iff)
  from c 2 f u 5 6 7 step_future [OF s] step_fuel [OF s] show ?thesis
    unfolding t invariant_def by simp
qed

lemma invariant_fire:
  assumes "invariant s ops"
  shows "invariant (fire i s) ops"
proof (cases "i < length (timers s)")
  case False
  with assms show ?thesis by (simp add: fire_def)
next
  case True
  obtain k e where ke: "timers s ! i = (k, e)" by (cases "timers s ! i")
  have t: "fire i s = s\<lparr>trace := trace s @ [Fired k e],
      timers := take i (timers s) @ drop (Suc i) (timers s)\<rparr>"
    using True ke by (simp add: fire_def)
  from assms have c: "count s = length ops"
    and i: "own_events (trace s) @ future (queue s) = serial 0 ops"
    and f: "fate (queue s) =
       (if list_all (\<lambda>operation. result operation \<noteq> Hangs) ops then Some Fulfilled else None)"
    and u: "fuel (queue s) \<le> cost ops"
    and r: "scan (0, False) (trace s) \<noteq> None"
    and d: "list_all (\<lambda>x. Deferred (fst x) (snd x) \<in> set (trace s)) (timers s)"
      "list_all (\<lambda>x. Deferred (fst x) (snd x) \<in> set (trace s)) (deferred_fired (trace s))"
    by (simp_all add: invariant_def)
  from True ke have m: "(k, e) \<in> set (timers s)" by (metis nth_mem)
  with d(1) have dk: "Deferred k e \<in> set (trace s)" by (auto simp: list_all_iff)
  from r obtain n b where st: "scan (0, False) (trace s) = Some (n, b)" by auto
  from scan_Deferred_bound [OF st dk] have "k < n" .
  then have 5: "scan (0, False) (trace s @ [Fired k e]) \<noteq> None"
    by (simp add: scan_append st)
  have 6: "list_all (\<lambda>x. Deferred (fst x) (snd x) \<in> set (trace s @ [Fired k e]))
      (take i (timers s) @ drop (Suc i) (timers s))"
    using d(1) by (auto simp: list_all_iff dest: in_set_takeD in_set_dropD)
  have 7: "list_all (\<lambda>x. Deferred (fst x) (snd x) \<in> set (trace s @ [Fired k e]))
      (deferred_fired (trace s @ [Fired k e]))"
    using d(2) dk by (auto simp: list_all_iff)
  from c i f u 5 6 7 show ?thesis unfolding t invariant_def by simp
qed

lemma invariant_run:
  "invariant s ops \<Longrightarrow> invariant (run ins s) (ops @ operations ins)"
proof (induction ins arbitrary: s ops)
  case Nil
  then show ?case by (simp add: run_def)
next
  case (Cons i ins)
  show ?case
  proof (cases i)
    case (Enqueue operation)
    from Cons.IH [OF invariant_enqueue [OF Cons.prems, of operation]] Enqueue
    show ?thesis by (simp add: run_def)
  next
    case Tick
    from Cons.IH [OF invariant_tick [OF Cons.prems]] Tick
    show ?thesis by (simp add: run_def)
  next
    case (Fire j)
    from Cons.IH [OF invariant_fire [OF Cons.prems, of j]] Fire
    show ?thesis by (simp add: run_def)
  qed
qed

lemma invariant_reachable: "invariant (run ins new_queue) (operations ins)"
  using invariant_run [OF invariant_new, of ins] by simp

lemma run_append: "run (xs @ ys) s = run ys (run xs s)"
  by (simp add: run_def)

lemma run_ticks_drained:
  "fuel (queue s) \<le> n \<Longrightarrow> step (queue (run (replicate n Tick) s)) = None"
proof (induction n arbitrary: s)
  case 0
  then have "fuel (queue s) = 0" by simp
  then have "step (queue s) = None"
    using step_fuel [of "queue s"] by (cases "step (queue s)") auto
  then show ?case by (simp add: run_def)
next
  case (Suc n)
  show ?case
  proof (cases "step (queue s)")
    case None
    then have "tick s = s" by (simp add: tick_def)
    then have "run (replicate m Tick) s = s" for m
      by (induction m) (simp_all add: run_def)
    from this [of "Suc n"] None show ?thesis by simp
  next
    case (Some a)
    then obtain p es where s: "step (queue s) = Some (p, es)" by (cases a) simp
    then have "fuel (queue (tick s)) \<le> n"
      using step_fuel [OF s] Suc.prems by (simp add: tick_def)
    from Suc.IH [OF this] show ?thesis by (simp add: run_def)
  qed
qed

section \<open>Facts about the serial execution\<close>

lemma serial_mem:
  "x \<in> set (serial j ops) \<Longrightarrow> \<exists>i<length ops. x \<in> set (block (j + i) (ops ! i))"
proof (induction ops arbitrary: j)
  case Nil
  then show ?case by simp
next
  case (Cons a ops)
  show ?case
  proof (cases "x \<in> set (block j a)")
    case True
    then show ?thesis by (intro exI [of _ 0]) simp
  next
    case False
    with Cons.prems have "x \<in> set (serial (Suc j) ops)" by (auto split: if_splits)
    from Cons.IH [OF this] obtain i where "i < length ops" "x \<in> set (block (Suc j + i) (ops ! i))"
      by blast
    then show ?thesis by (intro exI [of _ "Suc i"]) simp
  qed
qed

lemma Did_serial:
  "Did k e \<in> set (serial 0 ops) \<Longrightarrow> k < length ops \<and> e \<in> set (effects (body (ops ! k)))"
  by (auto dest: serial_mem)

lemma Deferred_serial:
  "Deferred k e \<in> set (serial 0 ops) \<Longrightarrow> k < length ops \<and> Defer e \<in> set (body (ops ! k))"
  by (auto dest!: serial_mem Deferred_block)

lemma Finished_serial:
  "Finished k st \<in> set (serial 0 ops) \<Longrightarrow>
   k < length ops \<and> settles (result (ops ! k)) = Some st"
  by (auto dest: serial_mem)

lemma serial_start_after_finish:
  "Started (Suc n) \<in> set (serial k ops) \<Longrightarrow> k \<le> n \<Longrightarrow>
   \<exists>st. Finished n st \<in> set (takeWhile (\<lambda>e. e \<noteq> Started (Suc n)) (serial k ops))"
proof (induction ops arbitrary: k)
  case Nil
  then show ?case by simp
next
  case (Cons a ops)
  from Cons.prems have b: "\<forall>e\<in>set (block k a). e \<noteq> Started (Suc n)" by auto
  with Cons.prems have r: "result a \<noteq> Hangs" "Started (Suc n) \<in> set (serial (Suc k) ops)"
    by (auto split: if_splits)
  from r(1) obtain st where st: "settles (result a) = Some st"
    by (cases "settles (result a)") auto
  have tw: "takeWhile (\<lambda>e. e \<noteq> Started (Suc n)) (serial k (a # ops)) =
      block k a @ takeWhile (\<lambda>e. e \<noteq> Started (Suc n)) (serial (Suc k) ops)"
    using b r(1) by (simp add: takeWhile_append2)
  show ?case
  proof (cases "k = n")
    case True
    with st have "Finished n st \<in> set (block k a)" by simp
    then show ?thesis unfolding tw by auto
  next
    case False
    with Cons.prems have "Suc k \<le> n" by simp
    from Cons.IH [OF r(2) this] show ?thesis unfolding tw by auto
  qed
qed

lemma takeWhile_prefix:
  "prefix t T \<Longrightarrow> x \<in> set t \<Longrightarrow>
   takeWhile (\<lambda>e. e \<noteq> x) t = takeWhile (\<lambda>e. e \<noteq> x) T"
  by (auto simp: prefix_def takeWhile_append1)

lemma takeWhile_own_events:
  "own_events (takeWhile (\<lambda>e. e \<noteq> Started m) t) =
   takeWhile (\<lambda>e. e \<noteq> Started m) (own_events t)"
  by (induction t rule: own_events.induct) simp_all

lemma block_subset_serial:
  "list_all (\<lambda>operation. result operation \<noteq> Hangs) (take (k - j) ops) \<Longrightarrow>
   j \<le> k \<Longrightarrow> k < j + length ops \<Longrightarrow>
   set (block k (ops ! (k - j))) \<subseteq> set (serial j ops)"
proof (induction ops arbitrary: j)
  case Nil
  then show ?case by simp
next
  case (Cons a ops)
  show ?case
  proof (cases "k = j")
    case True
    then show ?thesis by simp
  next
    case False
    with Cons.prems have j: "Suc j \<le> k" "k < Suc j + length ops" by simp_all
    then have "k - j = Suc (k - Suc j)" by simp
    with Cons.prems(1)
    have h: "list_all (\<lambda>operation. result operation \<noteq> Hangs) (take (k - Suc j) ops)"
      "result a \<noteq> Hangs" by simp_all
    from Cons.IH [OF h(1) j] h(2) j(1) False show ?thesis
      by (auto simp: Suc_diff_le nth_Cons')
  qed
qed

lemma operations_append [simp]: "operations (xs @ ys) = operations xs @ operations ys"
  by (induction xs rule: operations.induct) simp_all

lemma operations_replicate_Tick [simp]: "operations (replicate n Tick) = []"
  by (induction n) simp_all

lemma own_trace_prefix_serial:
  "prefix (own_events (trace (run ins new_queue))) (serial 0 (operations ins))"
proof -
  have "own_events (trace (run ins new_queue)) @ future (queue (run ins new_queue)) =
      serial 0 (operations ins)"
    using invariant_reachable [of ins] by (simp add: invariant_def)
  then show ?thesis by (metis prefixI)
qed

lemma own_event_in_serial:
  assumes "x \<in> set (trace (run ins new_queue))" and "\<And>k e. x \<noteq> Fired k e"
  shows "x \<in> set (serial 0 (operations ins))"
proof -
  from assms have "x \<in> set (own_events (trace (run ins new_queue)))"
    by (simp add: set_own_events)
  with own_trace_prefix_serial [of ins] show ?thesis by (auto simp: prefix_def)
qed

lemma Fired_was_Deferred:
  "Fired k e \<in> set (trace (run ins new_queue)) \<Longrightarrow>
   Deferred k e \<in> set (trace (run ins new_queue))"
  using invariant_reachable [of ins]
  by (auto simp: invariant_def list_all_iff set_deferred_fired)

lemma trace_drained:
  assumes "cost (operations ins) \<le> n"
  shows "step (queue (run (ins @ replicate n Tick) new_queue)) = None"
    and "own_events (trace (run (ins @ replicate n Tick) new_queue)) = serial 0 (operations ins)"
proof -
  let ?s = "run ins new_queue" and ?d = "run (ins @ replicate n Tick) new_queue"
  have "invariant ?s (operations ins)" by (rule invariant_reachable)
  then have "fuel (queue ?s) \<le> n" using assms by (simp add: invariant_def)
  then have "step (queue (run (replicate n Tick) ?s)) = None" by (rule run_ticks_drained)
  then show n: "step (queue ?d) = None" by (simp add: run_append)
  have "invariant ?d (operations ins)"
    using invariant_reachable [of "ins @ replicate n Tick"] by simp
  then have "own_events (trace ?d) @ future (queue ?d) = serial 0 (operations ins)"
    by (simp add: invariant_def)
  with step_None_future [OF n] show "own_events (trace ?d) = serial 0 (operations ins)"
    by simp
qed

lemma count_reachable: "count (run ins new_queue) = length (operations ins)"
  using invariant_reachable [of ins] by (simp add: invariant_def)

lemma queue_never_rejected: "queue (run ins new_queue) \<noteq> Settled Rejected"
proof
  assume "queue (run ins new_queue) = Settled Rejected"
  then have "fate (queue (run ins new_queue)) = Some Rejected" by simp
  with invariant_reachable [of ins] show False
    by (simp add: invariant_def split: if_splits)
qed

lemma effects_map_Effect [simp]: "effects (map (\<lambda>x. Effect (f x)) xs) = map f xs"
  by (induction xs) simp_all

lemma effects_append [simp]: "effects (xs @ ys) = effects xs @ effects ys"
  by (induction xs rule: effects.induct) simp_all




section \<open>Claims about OperationQueue\<close>

text \<open>
  Claim C1. For every sequence of operations enqueued on an
  \<open>OperationQueue\<close>, whatever the durations of the operations, the delays of their
  callbacks and the times of the calls of \<open>enqueue\<close>: what the operations have done
  themselves at any moment is a beginning of their serial execution in enqueue order;
  operation \<open>n + 1\<close> is not called before operation \<open>n\<close> has settled, fulfilled or
  rejected; the side effects made before the promise of their operation has settled,
  those of callbacks included, occur in enqueue order; and the side effects the
  operations have made themselves are a beginning of their side effects in enqueue order.
\<close>

theorem operations_in_enqueue_order:
  "prefix (own_events (trace (run ins new_queue))) (serial 0 (operations ins)) \<and>
   (\<forall>n. Started (Suc n) \<in> set (trace (run ins new_queue)) \<longrightarrow>
        (\<exists>st. Finished n st \<in>
           set (takeWhile (\<lambda>e. e \<noteq> Started (Suc n)) (trace (run ins new_queue))))) \<and>
   sorted (map fst (before_settlement [] (trace (run ins new_queue)))) \<and>
   prefix (side_effects (own_events (trace (run ins new_queue))))
     (concat (map (\<lambda>operation. effects (body operation)) (operations ins)))"
proof (intro conjI allI impI)
  let ?t = "trace (run ins new_queue)" and ?T = "serial 0 (operations ins)"
  show p: "prefix (own_events ?t) ?T" by (rule own_trace_prefix_serial)
  show "\<exists>st. Finished n st \<in> set (takeWhile (\<lambda>e. e \<noteq> Started (Suc n)) ?t)"
    if s: "Started (Suc n) \<in> set ?t" for n
  proof -
    from s have o: "Started (Suc n) \<in> set (own_events ?t)" by (simp add: set_own_events)
    with p have "Started (Suc n) \<in> set ?T" by (auto simp: prefix_def)
    from serial_start_after_finish [OF this] takeWhile_prefix [OF p o]
    obtain st where "Finished n st \<in> set (takeWhile (\<lambda>e. e \<noteq> Started (Suc n)) (own_events ?t))"
      by auto
    then have "Finished n st \<in> set (own_events (takeWhile (\<lambda>e. e \<noteq> Started (Suc n)) ?t))"
      by (simp add: takeWhile_own_events)
    then show ?thesis by (auto simp: set_own_events)
  qed
  have "scan (0, False) ?t \<noteq> None"
    using invariant_reachable [of ins] by (simp add: invariant_def)
  then obtain st' where "scan (0, False) ?t = Some st'" by blast
  from before_settlement_sorted [OF this, of "[]"]
  show "sorted (map fst (before_settlement [] ?t))" by simp
  from p obtain r where "?T = own_events ?t @ r" by (auto simp: prefix_def)
  then have "side_effects ?T = side_effects (own_events ?t) @ side_effects r" by simp
  then have "prefix (side_effects (own_events ?t)) (side_effects ?T)" by (metis prefixI)
  from this side_effects_serial [of 0 "operations ins"]
  show "prefix (side_effects (own_events ?t))
      (concat (map (\<lambda>operation. effects (body operation)) (operations ins)))"
    by (rule prefix_order.trans)
qed

text \<open>
  The operations of the test: the first takes longest and records 1, the second is
  shorter and records 2, the third records 3 at once. The first also hands 9 to a
  callback that fires before its promise settles. The order observed is 9, 1, 2, 3.
\<close>

theorem operations_in_enqueue_order_witness:
  "before_settlement []
     (trace (run ([Enqueue \<lparr>body = [Defer 9, Await, Await, Effect (1::nat)], result = Resolves\<rparr>,
                   Enqueue \<lparr>body = [Await, Effect 2], result = Resolves\<rparr>,
                   Enqueue \<lparr>body = [Effect 3], result = Resolves\<rparr>,
                   Tick, Tick, Fire 0] @ replicate 17 Tick) new_queue)) =
     [(0, 9), (0, 1), (1, 2), (2, 3)] \<and>
   sorted (map fst (before_settlement []
     (trace (run ([Enqueue \<lparr>body = [Defer 9, Await, Await, Effect (1::nat)], result = Resolves\<rparr>,
                   Enqueue \<lparr>body = [Await, Effect 2], result = Resolves\<rparr>,
                   Enqueue \<lparr>body = [Effect 3], result = Resolves\<rparr>,
                   Tick, Tick, Fire 0] @ replicate 17 Tick) new_queue)))) \<and>
   prefix (own_events
     (trace (run ([Enqueue \<lparr>body = [Defer 9, Await, Await, Effect (1::nat)], result = Resolves\<rparr>,
                   Enqueue \<lparr>body = [Await, Effect 2], result = Resolves\<rparr>,
                   Enqueue \<lparr>body = [Effect 3], result = Resolves\<rparr>,
                   Tick, Tick, Fire 0] @ replicate 17 Tick) new_queue)))
     [Started 0, Deferred 0 9, Did 0 1, Finished 0 Fulfilled, Started 1, Did 1 2,
      Finished 1 Fulfilled, Started 2, Did 2 3, Finished 2 Fulfilled]"
proof -
  let ?ins = "[Enqueue \<lparr>body = [Defer 9, Await, Await, Effect (1::nat)], result = Resolves\<rparr>,
               Enqueue \<lparr>body = [Await, Effect 2], result = Resolves\<rparr>,
               Enqueue \<lparr>body = [Effect 3], result = Resolves\<rparr>,
               Tick, Tick, Fire 0] @ replicate 17 Tick"
  have t: "trace (run ?ins new_queue) =
     [Started 0, Deferred 0 9, Fired 0 9, Did 0 1, Finished 0 Fulfilled, Started 1, Did 1 2,
      Finished 1 Fulfilled, Started 2, Did 2 3, Finished 2 Fulfilled]"
    by code_simp
  have s: "serial 0 (operations ?ins) =
     [Started 0, Deferred 0 9, Did 0 1, Finished 0 Fulfilled, Started 1, Did 1 2,
      Finished 1 Fulfilled, Started 2, Did 2 3, Finished 2 Fulfilled]"
    by code_simp
  note th = operations_in_enqueue_order [of ?ins]
  have p: "prefix (own_events (trace (run ?ins new_queue)))
     [Started 0, Deferred 0 9, Did 0 1, Finished 0 Fulfilled, Started 1, Did 1 2,
      Finished 1 Fulfilled, Started 2, Did 2 3, Finished 2 Fulfilled]"
    using th [THEN conjunct1] unfolding s .
  have o: "sorted (map fst (before_settlement [] (trace (run ?ins new_queue))))"
    using th [THEN conjunct2, THEN conjunct2, THEN conjunct1] .
  have b: "before_settlement [] (trace (run ?ins new_queue)) = [(0, 9), (0, 1), (1, 2), (2, 3)]"
    unfolding t by simp
  from b o p show ?thesis by (intro conjI)
qed

text \<open>
  The order does not extend to the side effects made after settlement: the first
  operation hands the recording of 1 to a timer and resolves at once, the second
  records 2, and the timer fires after that. The queue waits for the promise that the
  operation returned and for nothing else, so 2 is recorded before 1.
\<close>

theorem operations_in_enqueue_order_counterexample:
  "side_effects
     (trace (run ([Enqueue \<lparr>body = [Defer (1::nat)], result = Resolves\<rparr>,
                   Enqueue \<lparr>body = [Effect 2], result = Resolves\<rparr>]
                  @ replicate 9 Tick @ [Fire 0]) new_queue)) = [2, 1] \<and>
   side_effect_owners
     (trace (run ([Enqueue \<lparr>body = [Defer (1::nat)], result = Resolves\<rparr>,
                   Enqueue \<lparr>body = [Effect 2], result = Resolves\<rparr>]
                  @ replicate 9 Tick @ [Fire 0]) new_queue)) = [1, 0] \<and>
   \<not> sorted (side_effect_owners
     (trace (run ([Enqueue \<lparr>body = [Defer (1::nat)], result = Resolves\<rparr>,
                   Enqueue \<lparr>body = [Effect 2], result = Resolves\<rparr>]
                  @ replicate 9 Tick @ [Fire 0]) new_queue)))"
proof -
  have t: "trace (run ([Enqueue \<lparr>body = [Defer (1::nat)], result = Resolves\<rparr>,
                   Enqueue \<lparr>body = [Effect 2], result = Resolves\<rparr>]
                  @ replicate 9 Tick @ [Fire 0]) new_queue) =
     [Started 0, Deferred 0 1, Finished 0 Fulfilled, Started 1, Did 1 2, Finished 1 Fulfilled,
      Fired 0 1]"
    by code_simp
  show ?thesis unfolding t by simp
qed

text \<open>
  Claim C2. A failure of an operation, by rejecting or by throwing, never
  reaches the promise the queue holds, which is not rejected at any moment. After enough
  steps of the event loop what the operations have done is their whole serial execution:
  every operation before which all operations settle has been called, those enqueued
  after a failing one included, and has settled if it settles at all; and the queue is
  fulfilled when every operation settles.
\<close>

theorem failure_does_not_stop_queue:
  "queue (run ins new_queue) \<noteq> Settled Rejected \<and>
   (cost (operations ins) \<le> n \<longrightarrow>
      own_events (trace (run (ins @ replicate n Tick) new_queue)) = serial 0 (operations ins) \<and>
      (\<forall>k<length (operations ins).
         list_all (\<lambda>operation. result operation \<noteq> Hangs) (take k (operations ins)) \<longrightarrow>
         Started k \<in> set (trace (run (ins @ replicate n Tick) new_queue)) \<and>
         (\<forall>st. settles (result (operations ins ! k)) = Some st \<longrightarrow>
               Finished k st \<in> set (trace (run (ins @ replicate n Tick) new_queue)))) \<and>
      (list_all (\<lambda>operation. result operation \<noteq> Hangs) (operations ins) \<longrightarrow>
         queue (run (ins @ replicate n Tick) new_queue) = Settled Fulfilled))"
proof (intro conjI impI allI)
  show "queue (run ins new_queue) \<noteq> Settled Rejected" by (rule queue_never_rejected)
next
  let ?d = "run (ins @ replicate n Tick) new_queue" and ?ops = "operations ins"
  assume c: "cost ?ops \<le> n"
  show t: "own_events (trace ?d) = serial 0 ?ops" using c by (rule trace_drained)
  {
    fix k
    assume k: "k < length ?ops"
      and h: "list_all (\<lambda>operation. result operation \<noteq> Hangs) (take k ?ops)"
    have sub: "set (block k (?ops ! k)) \<subseteq> set (trace ?d)"
    proof -
      have "set (block k (?ops ! (k - 0))) \<subseteq> set (serial 0 ?ops)"
        using h k by (intro block_subset_serial) simp_all
      then have "set (block k (?ops ! k)) \<subseteq> set (own_events (trace ?d))"
        by (simp add: t)
      then show ?thesis by (auto simp: set_own_events)
    qed
    then show "Started k \<in> set (trace ?d)" by auto
    fix st
    assume "settles (result (?ops ! k)) = Some st"
    then have "Finished k st \<in> set (block k (?ops ! k))" by simp
    with sub show "Finished k st \<in> set (trace ?d)" by blast
  }
  assume a: "list_all (\<lambda>operation. result operation \<noteq> Hangs) ?ops"
  have "invariant ?d ?ops"
    using invariant_reachable [of "ins @ replicate n Tick"] by simp
  with a have "fate (queue ?d) = Some Fulfilled" by (simp add: invariant_def)
  with trace_drained(1) [OF c] show "queue ?d = Settled Fulfilled" by (rule step_None_settled)
qed

text \<open>
  An operation that rejects, one that throws and one that never settles: both failures
  are recorded and the third operation is called.
\<close>

theorem failure_does_not_stop_queue_witness:
  "Finished 0 Rejected \<in> set (trace (run
      ([Enqueue \<lparr>body = [Effect (1::nat)], result = Rejects\<rparr>,
        Enqueue \<lparr>body = [Effect 2], result = Throws\<rparr>,
        Enqueue \<lparr>body = [Effect 3], result = Hangs\<rparr>] @ replicate 15 Tick) new_queue)) \<and>
   Finished 1 Rejected \<in> set (trace (run
      ([Enqueue \<lparr>body = [Effect (1::nat)], result = Rejects\<rparr>,
        Enqueue \<lparr>body = [Effect 2], result = Throws\<rparr>,
        Enqueue \<lparr>body = [Effect 3], result = Hangs\<rparr>] @ replicate 15 Tick) new_queue)) \<and>
   Started 2 \<in> set (trace (run
      ([Enqueue \<lparr>body = [Effect (1::nat)], result = Rejects\<rparr>,
        Enqueue \<lparr>body = [Effect 2], result = Throws\<rparr>,
        Enqueue \<lparr>body = [Effect 3], result = Hangs\<rparr>] @ replicate 15 Tick) new_queue)) \<and>
   own_events (trace (run
      ([Enqueue \<lparr>body = [Effect (1::nat)], result = Rejects\<rparr>,
        Enqueue \<lparr>body = [Effect 2], result = Throws\<rparr>,
        Enqueue \<lparr>body = [Effect 3], result = Hangs\<rparr>] @ replicate 15 Tick) new_queue)) =
     [Started 0, Did 0 1, Finished 0 Rejected, Started 1, Did 1 2, Finished 1 Rejected,
      Started 2, Did 2 3]"
proof -
  let ?ins = "[Enqueue \<lparr>body = [Effect (1::nat)], result = Rejects\<rparr>,
               Enqueue \<lparr>body = [Effect 2], result = Throws\<rparr>,
               Enqueue \<lparr>body = [Effect 3], result = Hangs\<rparr>]"
  have c: "cost (operations ?ins) \<le> 15" by (simp add: cost_def)
  have s: "serial 0 (operations ?ins) =
     [Started 0, Did 0 1, Finished 0 Rejected, Started 1, Did 1 2, Finished 1 Rejected,
      Started 2, Did 2 3]"
    by (simp add: block_def)
  note th = failure_does_not_stop_queue [of ?ins 15, THEN conjunct2, rule_format, OF c]
  have o: "own_events (trace (run (?ins @ replicate 15 Tick) new_queue)) =
     [Started 0, Did 0 1, Finished 0 Rejected, Started 1, Did 1 2, Finished 1 Rejected,
      Started 2, Did 2 3]"
    using th [THEN conjunct1] unfolding s .
  have k: "Started 2 \<in> set (trace (run (?ins @ replicate 15 Tick) new_queue))"
    using th [THEN conjunct2, THEN conjunct1, rule_format, of 2, THEN conjunct1] by simp
  have f0: "Finished 0 Rejected \<in> set (trace (run (?ins @ replicate 15 Tick) new_queue))"
    using th [THEN conjunct2, THEN conjunct1, rule_format, of 0, THEN conjunct2, rule_format,
        of Rejected] by simp
  have f1: "Finished 1 Rejected \<in> set (trace (run (?ins @ replicate 15 Tick) new_queue))"
    using th [THEN conjunct2, THEN conjunct1, rule_format, of 1, THEN conjunct2, rule_format,
        of Rejected] by simp
  from f0 f1 k o show ?thesis by (intro conjI)
qed

text \<open>
  After an operation that throws and one that never settles, the third operation is never
  called, whatever is enqueued, stepped or fired later.
\<close>

lemma stalled_queue_never_calls:
  "Started 2 \<notin> set (trace (run
      ([Enqueue \<lparr>body = [Effect (1::nat)], result = Throws\<rparr>,
        Enqueue \<lparr>body = [Effect 2], result = Hangs\<rparr>,
        Enqueue \<lparr>body = [Effect 3], result = Resolves\<rparr>] @ rest) new_queue))"
proof
  assume "Started 2 \<in> set (trace (run
      ([Enqueue \<lparr>body = [Effect (1::nat)], result = Throws\<rparr>,
        Enqueue \<lparr>body = [Effect 2], result = Hangs\<rparr>,
        Enqueue \<lparr>body = [Effect 3], result = Resolves\<rparr>] @ rest) new_queue))"
  then have "Started 2 \<in> set (serial 0 (operations
      ([Enqueue \<lparr>body = [Effect (1::nat)], result = Throws\<rparr>,
        Enqueue \<lparr>body = [Effect 2], result = Hangs\<rparr>,
        Enqueue \<lparr>body = [Effect 3], result = Resolves\<rparr>] @ rest)))"
    by (rule own_event_in_serial) simp
  then show False by (simp add: block_def)
qed

text \<open>
  The condition on the operations before cannot be left out: the first operation throws,
  the second never settles, and after twenty steps the failure is recorded, no step is
  left and the third operation has not been called.
\<close>

theorem failure_does_not_stop_queue_counterexample:
  "Finished 0 Rejected \<in> set (trace (run
      ([Enqueue \<lparr>body = [Effect (1::nat)], result = Throws\<rparr>,
        Enqueue \<lparr>body = [Effect 2], result = Hangs\<rparr>,
        Enqueue \<lparr>body = [Effect 3], result = Resolves\<rparr>] @ replicate 20 Tick) new_queue)) \<and>
   Started 2 \<notin> set (trace (run
      ([Enqueue \<lparr>body = [Effect (1::nat)], result = Throws\<rparr>,
        Enqueue \<lparr>body = [Effect 2], result = Hangs\<rparr>,
        Enqueue \<lparr>body = [Effect 3], result = Resolves\<rparr>] @ replicate 20 Tick) new_queue)) \<and>
   step (queue (run
      ([Enqueue \<lparr>body = [Effect (1::nat)], result = Throws\<rparr>,
        Enqueue \<lparr>body = [Effect 2], result = Hangs\<rparr>,
        Enqueue \<lparr>body = [Effect 3], result = Resolves\<rparr>] @ replicate 20 Tick) new_queue)) = None"
proof -
  let ?ins = "[Enqueue \<lparr>body = [Effect (1::nat)], result = Throws\<rparr>,
        Enqueue \<lparr>body = [Effect 2], result = Hangs\<rparr>,
        Enqueue \<lparr>body = [Effect 3], result = Resolves\<rparr>]"
  have t: "trace (run (?ins @ replicate 20 Tick) new_queue) =
     [Started 0, Did 0 1, Finished 0 Rejected, Started 1, Did 1 2]"
    by code_simp
  have q: "step (queue (run (?ins @ replicate 20 Tick) new_queue)) = None"
    by code_simp
  show ?thesis unfolding t q by simp
qed

section \<open>Claims about captureCommands and queueCapture\<close>



text \<open>
  Claim C8. For every queue, whatever was enqueued on it before and is enqueued after,
  and every capture request, the operation that \<open>queueCapture\<close> enqueues for an absent
  client makes no call of the client, itself or through a callback, and does not fail,
  and the queue is not rejected.
\<close>

theorem queueCapture_without_client:
  "(\<forall>e. Did (count (run ins new_queue)) e \<notin>
          set (trace (run rest (queueCapture (run ins new_queue) None result')))) \<and>
   (\<forall>e. Fired (count (run ins new_queue)) e \<notin>
          set (trace (run rest (queueCapture (run ins new_queue) None result')))) \<and>
   Finished (count (run ins new_queue)) Rejected \<notin>
     set (trace (run rest (queueCapture (run ins new_queue) None result'))) \<and>
   queue (run rest (queueCapture (run ins new_queue) None result')) \<noteq> Settled Rejected"
proof -
  let ?op = "capture_operation None result'"
  let ?all = "ins @ [Enqueue ?op] @ rest"
  let ?k = "count (run ins new_queue)"
  have r: "run rest (queueCapture (run ins new_queue) None result') = run ?all new_queue"
    by (simp add: queueCapture_def run_def)
  have k: "?k = length (operations ins)" by (rule count_reachable)
  have o: "operations ?all ! ?k = ?op" by (simp add: k nth_append)
  have b: "body ?op = []" "result ?op = Resolves" by (simp_all add: capture_operation_def)
  have 1: "Did ?k e \<notin> set (trace (run ?all new_queue))" for e
  proof
    assume "Did ?k e \<in> set (trace (run ?all new_queue))"
    then have "Did ?k e \<in> set (serial 0 (operations ?all))"
      by (rule own_event_in_serial) simp
    from Did_serial [OF this] have "e \<in> set (effects (body (operations ?all ! ?k)))" by simp
    then show False unfolding o b by simp
  qed
  have 2: "Fired ?k e \<notin> set (trace (run ?all new_queue))" for e
  proof
    assume "Fired ?k e \<in> set (trace (run ?all new_queue))"
    then have "Deferred ?k e \<in> set (trace (run ?all new_queue))" by (rule Fired_was_Deferred)
    then have "Deferred ?k e \<in> set (serial 0 (operations ?all))"
      by (rule own_event_in_serial) simp
    from Deferred_serial [OF this] have "Defer e \<in> set (body (operations ?all ! ?k))" by simp
    then show False unfolding o b by simp
  qed
  have 3: "Finished ?k Rejected \<notin> set (trace (run ?all new_queue))"
  proof
    assume "Finished ?k Rejected \<in> set (trace (run ?all new_queue))"
    then have "Finished ?k Rejected \<in> set (serial 0 (operations ?all))"
      by (rule own_event_in_serial) simp
    from Finished_serial [OF this] have "settles (result (operations ?all ! ?k)) = Some Rejected"
      by simp
    then show False unfolding o b by simp
  qed
  from 1 2 3 queue_never_rejected [of ?all] show ?thesis unfolding r by blast
qed

text \<open>The call of the test on a new queue.\<close>

theorem queueCapture_without_client_witness:
  "trace (run (replicate 5 Tick)
      (queueCapture (run [] new_queue) None
         \<lparr>commands = [js ''cmd1''], options' = \<lparr>context' = None, status = js ''success''\<rparr>\<rparr>)) =
     [Started 0, Finished 0 Fulfilled] \<and>
   Did (count (run [] (new_queue :: submission OperationQueue))) (AddCommand (js ''cmd1'') [] \<lparr>context' = None, status = js ''success''\<rparr>)
     \<notin> set (trace (run (replicate 5 Tick)
      (queueCapture (run [] new_queue) None
         \<lparr>commands = [js ''cmd1''], options' = \<lparr>context' = None, status = js ''success''\<rparr>\<rparr>)))"
proof -
  have t: "trace (run (replicate 5 Tick)
      (queueCapture (run [] new_queue) None
         \<lparr>commands = [js ''cmd1''], options' = \<lparr>context' = None, status = js ''success''\<rparr>\<rparr>)) =
     [Started 0, Finished 0 Fulfilled]"
    by code_simp
  from queueCapture_without_client [of "[]" "replicate 5 Tick"
      "\<lparr>commands = [js ''cmd1''], options' = \<lparr>context' = None, status = js ''success''\<rparr>\<rparr>"]
  show ?thesis unfolding t by blast
qed

end
